theory Spec2Isabelle
  imports Complex_Main "HOL-Library.Sublist" "HOL-Library.AList"
begin

section \<open>Data model\<close>

text \<open>
  The Python errors the codec can raise. Every raise of the source is a branch of the
  model that returns \<open>Inl\<close> of one of them.
\<close>

datatype error =
  TypeError | IndexError | KeyError | ValueError | AttributeError
  | ZeroDivisionError | OverflowError | RecursionError

text \<open>
  Modelled from the spec: the class \<open>HuffmanNode\<close> of \<open>nodes.py\<close>, which is not among
  the sources. A node is built as \<open>HuffmanNode(symbol=None, left=None, right=None)\<close> and
  has a \<open>number\<close> attribute, unset (\<open>None\<close>) until a numbering pass or the record reader
  assigns it. All four fields are optional, as \<open>huffman.py\<close> uses them.
\<close>

datatype hnode =
  HuffmanNode (symbol: "int option") (left: "hnode option") (right: "hnode option")
    (number: "int option")

text \<open>
  Modelled from the spec: the class \<open>ReadNode\<close> of \<open>nodes.py\<close>,
  \<open>ReadNode(l_type, l_data, r_type, r_data)\<close>: one serialized record.
\<close>

datatype read_node =
  ReadNode (l_type: int) (l_data: int) (r_type: int) (r_data: int)

text \<open>
  A Python \<open>dict\<close> is an association list in insertion order; \<open>d[k] = v\<close> is
  \<open>AList.update k v d\<close> (an existing key keeps its position) and a lookup is
  \<open>map_of d k\<close>.
\<close>

type_synonym ('k, 'v) dict = "('k \<times> 'v) list"

section \<open>Helpers\<close>

text \<open>
  Modelled from the spec: the method \<open>HuffmanNode.is_leaf()\<close> of \<open>nodes.py\<close>. A leaf is
  a node with neither child; \<open>number_nodes\<close> writes the same test out as
  \<open>not tree.left and not tree.right\<close>.
\<close>

definition is_leaf :: "hnode \<Rightarrow> bool" where
  "is_leaf t = (left t = None \<and> right t = None)"

text \<open>\<open>HuffmanNode(data)\<close>: a leaf carrying a symbol.\<close>

definition leaf_node :: "int \<Rightarrow> hnode" where
  "leaf_node s = HuffmanNode (Some s) None None None"

text \<open>\<open>n = HuffmanNode(); n.number = data\<close>: a placeholder naming another record.\<close>

definition ref_node :: "int \<Rightarrow> hnode" where
  "ref_node n = HuffmanNode None None None (Some n)"

text \<open>Python's truth value of an optional integer: \<open>None\<close> and \<open>0\<close> are false.\<close>

definition truthy :: "int option \<Rightarrow> bool" where
  "truthy s = (case s of None \<Rightarrow> False | Some v \<Rightarrow> v \<noteq> 0)"

text \<open>
  The position a Python list of length \<open>len\<close> gives to the index \<open>i\<close>: indices
  \<open>-len .. -1\<close> count from the end, anything outside \<open>-len .. len - 1\<close> is no position.
\<close>

definition list_pos :: "nat \<Rightarrow> int \<Rightarrow> nat option" where
  "list_pos len i =
     (if 0 \<le> i \<and> i < int len then Some (nat i)
      else if i < 0 \<and> - int len \<le> i then Some (nat (int len + i))
      else None)"

text \<open>\<open>xs[i]\<close>, with IndexError where there is no such position.\<close>

definition py_get :: "'a list \<Rightarrow> int \<Rightarrow> error + 'a" where
  "py_get xs i =
     (case list_pos (length xs) i of None \<Rightarrow> Inl IndexError | Some j \<Rightarrow> Inr (xs ! j))"

text \<open>
  \<open>list.sort\<close> with the comparison \<open>lt\<close>: a stable sort, written as insertion from
  the left (an element goes after every element not greater than it).
\<close>

fun py_insort :: "('a \<Rightarrow> 'a \<Rightarrow> bool) \<Rightarrow> 'a \<Rightarrow> 'a list \<Rightarrow> 'a list" where
  "py_insort lt x [] = [x]"
| "py_insort lt x (y # ys) = (if lt x y then x # y # ys else y # py_insort lt x ys)"

definition py_sort :: "('a \<Rightarrow> 'a \<Rightarrow> bool) \<Rightarrow> 'a list \<Rightarrow> 'a list" where
  "py_sort lt xs = foldl (\<lambda>acc x. py_insort lt x acc) [] xs"

text \<open>
  \<open>bytes(lst)\<close>: every element must be an integer in \<open>range(256)\<close>; the first element
  that is \<open>None\<close> raises TypeError, the first one out of range ValueError.
\<close>

fun bytes :: "int option list \<Rightarrow> error + int list" where
  "bytes [] = Inr []"
| "bytes (None # xs) = Inl TypeError"
| "bytes (Some v # xs) =
     (if 0 \<le> v \<and> v < 256
      then (case bytes xs of Inl e \<Rightarrow> Inl e | Inr bs \<Rightarrow> Inr (v # bs))
      else Inl ValueError)"

fun helper_node :: "read_node \<Rightarrow> hnode" where
  "helper_node (ReadNode lt ld rt rd) =
     (if lt = 0 \<and> rt = 0 then
        HuffmanNode None (Some (leaf_node ld)) (Some (leaf_node rd)) None
      else if lt = 0 \<and> rt = 1 then
        HuffmanNode None (Some (leaf_node ld)) (Some (ref_node rd)) None
      else if lt = 1 \<and> rt = 0 then
        HuffmanNode None (Some (ref_node ld)) (Some (leaf_node rd)) None
      else
        HuffmanNode None (Some (ref_node ld)) (Some (ref_node rd)) None)"

definition helper_generate_tree :: "read_node list \<Rightarrow> hnode list" where
  "helper_generate_tree node_lst = map helper_node node_lst"

definition invert_dict :: "('k, 'v) dict \<Rightarrow> ('v, 'k) dict" where
  "invert_dict d = foldl (\<lambda>new_dict (key, value). AList.update value key new_dict) [] d"

text \<open>
  The working items of the tree builder: a pair of a frequency and either a node or the
  pair of the two items that were combined, \<open>(comb_freq, (item0, item1))\<close>.
\<close>

datatype payload = PNode hnode | PPair int payload int payload

type_synonym item = "int \<times> payload"

fun deduct_payload :: "payload \<Rightarrow> hnode" where
  "deduct_payload (PNode h) = h"
| "deduct_payload (PPair f0 x0 f1 x1) =
     HuffmanNode None (Some (deduct_payload x0)) (Some (deduct_payload x1)) None"

definition deduct_freq :: "item \<Rightarrow> hnode" where
  "deduct_freq tree = deduct_payload (snd tree)"

text \<open>
  \<open>sort_freq\<close>: one \<open>(count, HuffmanNode(byte))\<close> per key, then \<open>tuples.sort()\<close>.
  Python compares the tuples by count and, for equal counts, by the nodes; the node
  comparison lives in \<open>nodes.py\<close>, which is not part of the sources, so it is the
  parameter \<open>node_lt\<close>.
\<close>

definition tuple_lt :: "(hnode \<Rightarrow> hnode \<Rightarrow> bool) \<Rightarrow> int \<times> hnode \<Rightarrow> int \<times> hnode \<Rightarrow> bool" where
  "tuple_lt node_lt a b = (fst a < fst b \<or> (fst a = fst b \<and> node_lt (snd a) (snd b)))"

definition sort_freq :: "(hnode \<Rightarrow> hnode \<Rightarrow> bool) \<Rightarrow> (int, int) dict \<Rightarrow> (int \<times> hnode) list" where
  "sort_freq node_lt freq_dict =
     py_sort (tuple_lt node_lt) (map (\<lambda>(byte, count). (count, leaf_node byte)) freq_dict)"

definition get_bit :: "int \<Rightarrow> nat \<Rightarrow> int" where
  "get_bit byte bit_num = drop_bit bit_num (and byte (push_bit bit_num 1))"

text \<open>\<open>str\<close> of a bit: \<open>get_bit\<close> returns 0 or 1.\<close>

definition bit_char :: "int \<Rightarrow> char" where
  "bit_char b = (if b = 0 then CHR ''0'' else CHR ''1'')"

definition byte_to_bits :: "int \<Rightarrow> string" where
  "byte_to_bits byte = map (\<lambda>bit_num. bit_char (get_bit byte bit_num)) [7, 6, 5, 4, 3, 2, 1, 0]"

text \<open>\<open>int(c)\<close> of a one-character string: a decimal digit, else ValueError.\<close>

definition int_of_char :: "char \<Rightarrow> error + int" where
  "int_of_char c =
     (let k = int (of_char c :: nat)
      in if 48 \<le> k \<and> k \<le> 57 then Inr (k - 48) else Inl ValueError)"

text \<open>
  \<open>bits_to_byte\<close>: the sum of \<open>int(bits[pos]) << (7 - pos)\<close>; a shift by a negative
  count (a position beyond 7) raises ValueError.
\<close>

fun bits_sum :: "string \<Rightarrow> nat \<Rightarrow> error + int" where
  "bits_sum [] pos = Inr 0"
| "bits_sum (c # cs) pos =
     (case int_of_char c of Inl e \<Rightarrow> Inl e
      | Inr v \<Rightarrow>
          if 7 < pos then Inl ValueError
          else (case bits_sum cs (Suc pos) of Inl e \<Rightarrow> Inl e
                | Inr s \<Rightarrow> Inr (push_bit (7 - pos) v + s)))"

definition bits_to_byte :: "string \<Rightarrow> error + int" where
  "bits_to_byte bits = bits_sum bits 0"

section \<open>Functions for compression\<close>

definition make_freq_dict :: "int list \<Rightarrow> (int, int) dict" where
  "make_freq_dict text =
     foldl (\<lambda>freq_dict element.
              AList.update element
                ((case map_of freq_dict element of None \<Rightarrow> 0 | Some c \<Rightarrow> c) + 1) freq_dict)
       [] text"

text \<open>
  The inner function of \<open>huffman_tree\<close> for a table that has not exactly one key (the
  test \<open>len(freq_tup) == 1\<close> does not change during the recursion and is made once, in
  \<open>huffman_tree\<close>): sort by frequency, combine the two least items, append the
  combination, until one item is left.
\<close>

function ht_internal :: "item list \<Rightarrow> hnode option" where
  "ht_internal sorted_tup =
     (if sorted_tup = [] then None
      else if length sorted_tup = 1 then
        (let i = deduct_freq (sorted_tup ! 0)
         in Some (HuffmanNode None (left i) (right i) None))
      else
        (let srt = py_sort (\<lambda>a b. fst a < fst b) sorted_tup;
             least0 = srt ! 0;
             least1 = srt ! 1;
             remainder = drop 2 srt;
             comb_freq = fst least0 + fst least1
         in ht_internal
              (remainder @ [(comb_freq, PPair (fst least0) (snd least0) (fst least1) (snd least1))])))"
  by pat_completeness auto
termination
proof (relation "measure length")
  show "wf (measure length)" by simp
next
  fix sorted_tup :: "item list" and x xa xb xc xd
  assume ne: "sorted_tup \<noteq> []" and n1: "length sorted_tup \<noteq> 1"
    and x: "x = py_sort (\<lambda>a b. fst a < fst b) sorted_tup" and xc: "xc = drop 2 x"
  have ins: "length (py_insort lt (y::item) ys) = Suc (length ys)" for lt y ys
    by (induction ys) auto
  have fl: "length (foldl (\<lambda>acc x. py_insort lt x acc) acc (zs::item list)) = length acc + length zs"
    for lt acc zs
    by (induction zs arbitrary: acc) (auto simp: ins)
  have "length x = length sorted_tup"
    using x fl [of _ "[]" sorted_tup] by (simp add: py_sort_def)
  moreover have "2 \<le> length sorted_tup"
    using ne n1 by (cases sorted_tup) (auto simp: Suc_le_eq)
  ultimately show "(xc @ [(xd, PPair (fst xa) (snd xa) (fst xb) (snd xb))], sorted_tup) \<in> measure length"
    using xc by simp
qed

definition huffman_tree :: "(hnode \<Rightarrow> hnode \<Rightarrow> bool) \<Rightarrow> (int, int) dict \<Rightarrow> hnode option" where
  "huffman_tree node_lt freq_tup =
     (let sorted_tup = sort_freq node_lt freq_tup
      in if length freq_tup = 1 then Some (snd (sorted_tup ! 0))
         else ht_internal (map (\<lambda>(f, h). (f, PNode h)) sorted_tup))"

text \<open>
  \<open>get_codes\<close>: every node that has a symbol (\<open>tree.symbol or tree.symbol == 0\<close>)
  records the path so far; the left subtree is walked before the right one.
\<close>

fun gc_internal :: "hnode \<Rightarrow> string \<Rightarrow> (int, string) dict \<Rightarrow> (int, string) dict" where
  "gc_internal (HuffmanNode s l r num) byte d =
     (let d0 = (case s of None \<Rightarrow> d | Some v \<Rightarrow> AList.update v byte d);
          d1 = (case l of None \<Rightarrow> d0 | Some lt \<Rightarrow> gc_internal lt (byte @ ''0'') d0)
      in case r of None \<Rightarrow> d1 | Some rt \<Rightarrow> gc_internal rt (byte @ ''1'') d1)"

definition get_codes :: "hnode option \<Rightarrow> (int, string) dict" where
  "get_codes tree = (case tree of None \<Rightarrow> [] | Some t \<Rightarrow> gc_internal t [] [])"

text \<open>
  The inner function of \<open>number_nodes\<close>: a node without children returns \<open>n\<close>; any
  other node appends \<open>n\<close> to \<open>l\<close>, takes \<open>n\<close> as its number, then numbers its right
  subtree from \<open>n + op\<close> and its left subtree from what the right one returned.
  Reaching a missing child reads \<open>None.left\<close>: AttributeError.
\<close>

fun nn_internal :: "hnode \<Rightarrow> int \<Rightarrow> int \<Rightarrow> int list \<Rightarrow> error + (hnode \<times> int \<times> int list)" where
  "nn_internal (HuffmanNode s None None num) n op l = Inr (HuffmanNode s None None num, n, l)"
| "nn_internal (HuffmanNode s (Some lt) (Some rt) num) n op l =
     (case nn_internal rt (n + op) op (l @ [n]) of
        Inl e \<Rightarrow> Inl e
      | Inr (rt', m, l1) \<Rightarrow>
          (case nn_internal lt m op l1 of
             Inl e \<Rightarrow> Inl e
           | Inr (lt', m', l2) \<Rightarrow> Inr (HuffmanNode s (Some lt') (Some rt') (Some n), m', l2)))"
| "nn_internal (HuffmanNode s None (Some rt) num) n op l = Inl AttributeError"
| "nn_internal (HuffmanNode s (Some lt) None num) n op l = Inl AttributeError"

definition number_nodes :: "hnode \<Rightarrow> error + hnode" where
  "number_nodes tree =
     (if left tree \<noteq> None \<and> right tree \<noteq> None then
        (case nn_internal tree 0 1 [] of
           Inl e \<Rightarrow> Inl e
         | Inr (t1, m, l) \<Rightarrow>
             (case nn_internal t1 (last l) (- 1) l of
                Inl e \<Rightarrow> Inl e
              | Inr (t2, m', l') \<Rightarrow> Inr t2))
      else Inr tree)"

text \<open>
  \<open>round(x, 2)\<close>. The float quotient is modelled by the exact rational one, rounded to
  hundredths, ties to even.
\<close>

definition round2 :: "rat \<Rightarrow> rat" where
  "round2 q =
     (let x = q * 100; f = \<lfloor>x\<rfloor>; r = x - of_int f
      in of_int (if r < 1 / 2 then f else if 1 / 2 < r then f + 1
                 else if even f then f else f + 1) / 100)"

fun avg_loop :: "(int, string) dict \<Rightarrow> (int, int) dict \<Rightarrow> int \<Rightarrow> int \<Rightarrow> error + (int \<times> int)" where
  "avg_loop [] freq_dict sums' s = Inr (sums', s)"
| "avg_loop ((key, value) # rest) freq_dict sums' s =
     (case map_of freq_dict key of
        None \<Rightarrow> Inl KeyError
      | Some f \<Rightarrow> avg_loop rest freq_dict (sums' + int (length value) * f) (s + f))"

definition avg_length :: "hnode option \<Rightarrow> (int, int) dict \<Rightarrow> error + rat" where
  "avg_length tree freq_dict =
     (case tree of
        None \<Rightarrow> Inr 0
      | Some t \<Rightarrow>
          (case avg_loop (get_codes tree) freq_dict 0 0 of
             Inl e \<Rightarrow> Inl e
           | Inr (sums', s) \<Rightarrow>
               if s = 0 then Inl ZeroDivisionError
               else Inr (round2 (of_int sums' / of_int s))))"

text \<open>The first loop of \<open>generate_compressed\<close>: \<open>comp_text += codes[i]\<close>.\<close>

fun concat_codes :: "int list \<Rightarrow> (int, string) dict \<Rightarrow> string \<Rightarrow> error + string" where
  "concat_codes [] codes comp_text = Inr comp_text"
| "concat_codes (i # text) codes comp_text =
     (case map_of codes i of
        None \<Rightarrow> Inl KeyError
      | Some c \<Rightarrow> concat_codes text codes (comp_text @ c))"

text \<open>The last loop of \<open>generate_compressed\<close>: \<open>ret_list.append(bits_to_byte(bits))\<close>.\<close>

fun bytes_of_groups :: "string list \<Rightarrow> error + int option list" where
  "bytes_of_groups [] = Inr []"
| "bytes_of_groups (bits # rest) =
     (case bits_to_byte bits of
        Inl e \<Rightarrow> Inl e
      | Inr b \<Rightarrow> (case bytes_of_groups rest of Inl e \<Rightarrow> Inl e | Inr bs \<Rightarrow> Inr (Some b # bs)))"

text \<open>
  \<open>generate_compressed\<close>. After the loop over \<open>range(0, end_point, 8)\<close> the variable
  \<open>stop\<close> is \<open>end_point\<close> (it starts at 0 and ends at the last group's end).
  \<open>comp_list[-1]\<close> on an empty list raises IndexError.
\<close>

definition generate_compressed :: "int list \<Rightarrow> (int, string) dict \<Rightarrow> error + int list" where
  "generate_compressed text codes =
     (case concat_codes text codes [] of
        Inl e \<Rightarrow> Inl e
      | Inr comp_text \<Rightarrow>
          (let comp_len = length comp_text;
               end_point = comp_len - comp_len mod 8;
               groups = map (\<lambda>k. take 8 (drop (8 * k) comp_text)) [0 ..< end_point div 8];
               stop = end_point;
               comp_list = (if drop stop comp_text \<noteq> [] then groups @ [drop stop comp_text]
                            else groups)
           in if comp_list = [] then Inl IndexError
              else
                (let lst = last comp_list;
                     padded = (if length lst mod 8 \<noteq> 0
                               then butlast comp_list @ [lst @ replicate (8 - length lst) CHR ''0'']
                               else comp_list)
                 in case bytes_of_groups padded of
                      Inl e \<Rightarrow> Inl e
                    | Inr ret_list \<Rightarrow> bytes ret_list)))"

text \<open>
  The inner function of \<open>tree_to_bytes\<close>. A node that is not a leaf and misses a child
  reaches \<open>None.is_leaf()\<close>: AttributeError. The entry pushed on \<open>recurse\<close> is the one
  read back by \<open>recurse[-1]\<close> after the two calls, which push and pop their own.
\<close>

definition leaf :: "hnode \<Rightarrow> int option list" where
  "leaf t = [Some 0, symbol t]"

fun ttb_internal :: "hnode \<Rightarrow> int option list \<Rightarrow> error + int option list" where
  "ttb_internal (HuffmanNode s None None num) leaf_lst =
     Inr (leaf_lst @ leaf (HuffmanNode s None None num))"
| "ttb_internal (HuffmanNode s None (Some r) num) leaf_lst = Inl AttributeError"
| "ttb_internal (HuffmanNode s (Some l) None num) leaf_lst = Inl AttributeError"
| "ttb_internal (HuffmanNode s (Some l) (Some r) num) leaf_lst =
     (if is_leaf l \<and> is_leaf r then Inr (leaf_lst @ leaf l @ leaf r)
      else if is_leaf l \<and> \<not> is_leaf r then
        (case ttb_internal r leaf_lst of
           Inl e \<Rightarrow> Inl e
         | Inr lst1 \<Rightarrow> Inr (lst1 @ leaf l @ [Some 1, number r]))
      else if \<not> is_leaf l \<and> is_leaf r then
        (case ttb_internal l leaf_lst of
           Inl e \<Rightarrow> Inl e
         | Inr lst1 \<Rightarrow> Inr (lst1 @ [Some 1, number l] @ leaf r))
      else
        (let entry = [Some 1, number l, Some 1, number r]
         in case ttb_internal l leaf_lst of
              Inl e \<Rightarrow> Inl e
            | Inr lst1 \<Rightarrow>
                (case ttb_internal r lst1 of
                   Inl e \<Rightarrow> Inl e
                 | Inr lst2 \<Rightarrow> Inr (lst2 @ entry))))"

definition tree_to_bytes :: "hnode \<Rightarrow> error + int list" where
  "tree_to_bytes tree =
     (case ttb_internal tree [] of Inl e \<Rightarrow> Inl e | Inr leaf_lst \<Rightarrow> bytes leaf_lst)"

text \<open>\<open>bytes([tree.number + 1])\<close>: an unset number raises TypeError.\<close>

definition num_nodes_to_bytes :: "hnode \<Rightarrow> error + int list" where
  "num_nodes_to_bytes tree =
     (case number tree of None \<Rightarrow> Inl TypeError | Some n \<Rightarrow> bytes [Some (n + 1)])"

text \<open>\<open>size.to_bytes(4, "little")\<close>: OverflowError beyond 32 bits.\<close>

definition size_to_bytes :: "int \<Rightarrow> error + int list" where
  "size_to_bytes size' =
     (if 0 \<le> size' \<and> size' < 2 ^ 32
      then Inr [size' mod 256, size' div 256 mod 256, size' div 65536 mod 256,
                size' div 16777216 mod 256]
      else Inl OverflowError)"

text \<open>
  \<open>compress\<close>, from the contents of \<open>in_file\<close> to the contents written to
  \<open>out_file\<close>. On an empty input \<open>huffman_tree\<close> returns \<open>None\<close> and
  \<open>number_nodes\<close> reads \<open>None.left\<close>.
\<close>

definition compress :: "(hnode \<Rightarrow> hnode \<Rightarrow> bool) \<Rightarrow> int list \<Rightarrow> error + int list" where
  "compress node_lt text =
     (let freq = make_freq_dict text;
          tree = huffman_tree node_lt freq;
          codes = get_codes tree
      in case tree of
           None \<Rightarrow> Inl AttributeError
         | Some t0 \<Rightarrow>
             (case number_nodes t0 of
                Inl e \<Rightarrow> Inl e
              | Inr t \<Rightarrow>
                  (case avg_length (Some t) freq of
                     Inl e \<Rightarrow> Inl e
                   | Inr bits_per_symbol \<Rightarrow>
                       (case num_nodes_to_bytes t of
                          Inl e \<Rightarrow> Inl e
                        | Inr b1 \<Rightarrow>
                            (case tree_to_bytes t of
                               Inl e \<Rightarrow> Inl e
                             | Inr b2 \<Rightarrow>
                                 (case size_to_bytes (int (length text)) of
                                    Inl e \<Rightarrow> Inl e
                                  | Inr b3 \<Rightarrow>
                                      (case generate_compressed text codes of
                                         Inl e \<Rightarrow> Inl e
                                       | Inr b4 \<Rightarrow> Inr (b1 @ b2 @ b3 @ b4))))))))"

section \<open>Functions for decompression\<close>

text \<open>\<open>duplicate_node\<close>: a new node with the same two children.\<close>

definition duplicate_node :: "hnode \<Rightarrow> hnode" where
  "duplicate_node node = HuffmanNode None (left node) (right node) None"

text \<open>
  \<open>duplicate_node(huffman_lst[child.number])\<close>: an unset number is no list index
  (TypeError), an index out of range raises IndexError.
\<close>

definition resolve :: "hnode list \<Rightarrow> hnode \<Rightarrow> error + hnode" where
  "resolve huffman_lst child =
     (case number child of
        None \<Rightarrow> Inl TypeError
      | Some k \<Rightarrow>
          (case py_get huffman_lst k of Inl e \<Rightarrow> Inl e | Inr node \<Rightarrow> Inr (duplicate_node node)))"

text \<open>
  \<open>create_tree\<close> of \<open>generate_tree_general\<close>. Records that refer to each other in a
  cycle make the recursion endless, so the function takes the recursion depth it may
  use and fails with RecursionError beyond it. The list is only read: the nodes the
  function changes are the duplicates.
\<close>

fun create_tree :: "nat \<Rightarrow> hnode list \<Rightarrow> hnode \<Rightarrow> error + hnode" where
  "create_tree 0 huffman_lst tree = Inl RecursionError"
| "create_tree (Suc fuel) huffman_lst tree =
     (if symbol tree \<noteq> None then Inr tree
      else
        (case left tree of
           None \<Rightarrow> Inl AttributeError
         | Some l0 \<Rightarrow>
             (case (if symbol l0 = None then resolve huffman_lst l0 else Inr l0) of
                Inl e \<Rightarrow> Inl e
              | Inr l1 \<Rightarrow>
                  (case right tree of
                     None \<Rightarrow> Inl AttributeError
                   | Some r0 \<Rightarrow>
                       (case (if symbol r0 = None then resolve huffman_lst r0 else Inr r0) of
                          Inl e \<Rightarrow> Inl e
                        | Inr r1 \<Rightarrow>
                            (case create_tree fuel huffman_lst r1 of
                               Inl e \<Rightarrow> Inl e
                             | Inr r2 \<Rightarrow>
                                 (case create_tree fuel huffman_lst l1 of
                                    Inl e \<Rightarrow> Inl e
                                  | Inr l2 \<Rightarrow>
                                      Inr (HuffmanNode (symbol tree) (Some l2) (Some r2)
                                             (number tree)))))))))"

definition generate_tree_general :: "nat \<Rightarrow> read_node list \<Rightarrow> int \<Rightarrow> error + hnode" where
  "generate_tree_general fuel node_lst root_index =
     (let huffman_lst = helper_generate_tree node_lst
      in case py_get huffman_lst root_index of
           Inl e \<Rightarrow> Inl e
         | Inr node \<Rightarrow> create_tree fuel huffman_lst (duplicate_node node))"

text \<open>\<open>lst.pop(i)\<close>: the element and the list without it.\<close>

definition py_pop :: "'a list \<Rightarrow> int \<Rightarrow> error + ('a \<times> 'a list)" where
  "py_pop xs i =
     (case list_pos (length xs) i of
        None \<Rightarrow> Inl IndexError
      | Some j \<Rightarrow> Inr (xs ! j, take j xs @ drop (Suc j) xs))"

text \<open>
  \<open>traversal\<close> of \<open>generate_tree_postorder\<close>, with the list it pops from as state and
  the recursion depth it may use. \<open>take_child\<close> is what the function does for one child
  whose symbol is false: pop the first node of the list into the child's place and, if
  the list is not empty and one of the new child's children has a false symbol,
  traverse the new child.
\<close>

fun traversal :: "nat \<Rightarrow> hnode \<Rightarrow> hnode list \<Rightarrow> error + (hnode \<times> hnode list)"
  and take_child :: "nat \<Rightarrow> hnode list \<Rightarrow> error + (hnode \<times> hnode list)" where
  "traversal 0 tree huffman_lst = Inl RecursionError"
| "traversal (Suc fuel) tree huffman_lst =
     (if huffman_lst = [] then Inr (tree, huffman_lst)
      else
        (case left tree of
           None \<Rightarrow> Inl AttributeError
         | Some l0 \<Rightarrow>
             (case (if \<not> truthy (symbol l0) then take_child fuel huffman_lst
                    else Inr (l0, huffman_lst)) of
                Inl e \<Rightarrow> Inl e
              | Inr (l1, lst1) \<Rightarrow>
                  (case right tree of
                     None \<Rightarrow> Inl AttributeError
                   | Some r0 \<Rightarrow>
                       (case (if \<not> truthy (symbol r0) then take_child fuel lst1
                              else Inr (r0, lst1)) of
                          Inl e \<Rightarrow> Inl e
                        | Inr (r1, lst2) \<Rightarrow>
                            Inr (HuffmanNode (symbol tree) (Some l1) (Some r1) (number tree),
                                 lst2))))))"
| "take_child fuel [] = Inl IndexError"
| "take_child fuel (child # rest) =
     (if rest \<noteq> [] then
        (case left child of
           None \<Rightarrow> Inl AttributeError
         | Some cl \<Rightarrow>
             if \<not> truthy (symbol cl) then traversal fuel child rest
             else
               (case right child of
                  None \<Rightarrow> Inl AttributeError
                | Some cr \<Rightarrow>
                    if \<not> truthy (symbol cr) then traversal fuel child rest
                    else Inr (child, rest)))
      else Inr (child, rest))"

definition generate_tree_postorder :: "nat \<Rightarrow> read_node list \<Rightarrow> int \<Rightarrow> error + hnode" where
  "generate_tree_postorder fuel node_lst root_index =
     (case py_pop (helper_generate_tree node_lst) root_index of
        Inl e \<Rightarrow> Inl e
      | Inr (tree, huffman_lst) \<Rightarrow>
          (case traversal fuel tree huffman_lst of
             Inl e \<Rightarrow> Inl e
           | Inr (t, rest) \<Rightarrow> Inr t))"

text \<open>
  The bit loop of \<open>generate_uncompressed\<close>: extend the candidate by one bit; if it is
  a code, emit its symbol, reset the candidate, and return once \<open>size\<close> symbols are
  there. When the bits run out the loop ends and what was emitted is returned.
\<close>

fun decode_loop :: "(string, int) dict \<Rightarrow> string \<Rightarrow> string \<Rightarrow> int list \<Rightarrow> int \<Rightarrow> int list" where
  "decode_loop codes [] new_bit lst_byte size' = lst_byte"
| "decode_loop codes (b # one_bit) new_bit lst_byte size' =
     (case map_of codes (new_bit @ [b]) of
        None \<Rightarrow> decode_loop codes one_bit (new_bit @ [b]) lst_byte size'
      | Some v \<Rightarrow>
          if int (length (lst_byte @ [v])) = size' then lst_byte @ [v]
          else decode_loop codes one_bit [] (lst_byte @ [v]) size')"

definition generate_uncompressed :: "hnode option \<Rightarrow> int list \<Rightarrow> int \<Rightarrow> error + int list" where
  "generate_uncompressed tree text size' =
     (let codes = invert_dict (get_codes tree);
          one_bit = concat (map byte_to_bits text)
      in bytes (map Some (decode_loop codes one_bit [] [] size')))"

text \<open>\<open>bytes_to_nodes\<close>: four bytes per record; a shorter rest raises IndexError.\<close>

fun bytes_to_nodes :: "int list \<Rightarrow> error + read_node list" where
  "bytes_to_nodes [] = Inr []"
| "bytes_to_nodes (a # b # c # d # buf) =
     (case bytes_to_nodes buf of
        Inl e \<Rightarrow> Inl e
      | Inr lst \<Rightarrow> Inr (ReadNode a b c d # lst))"
| "bytes_to_nodes buf = Inl IndexError"

definition bytes_to_size :: "int list \<Rightarrow> int" where
  "bytes_to_size buf = foldr (\<lambda>b acc. b + 256 * acc) buf 0"

text \<open>
  \<open>uncompress\<close>, from the contents of \<open>in_file\<close> to the contents written to
  \<open>out_file\<close>; \<open>f.read(n)\<close> returns at most \<open>n\<close> bytes.
\<close>

definition uncompress :: "nat \<Rightarrow> int list \<Rightarrow> error + int list" where
  "uncompress fuel contents =
     (case contents of
        [] \<Rightarrow> Inl IndexError
      | num_nodes # rest \<Rightarrow>
          (let buf = take (nat (num_nodes * 4)) rest;
               rest1 = drop (nat (num_nodes * 4)) rest
           in case bytes_to_nodes buf of
                Inl e \<Rightarrow> Inl e
              | Inr node_lst \<Rightarrow>
                  (case generate_tree_general fuel node_lst (num_nodes - 1) of
                     Inl e \<Rightarrow> Inl e
                   | Inr tree \<Rightarrow>
                       generate_uncompressed (Some tree) (drop 4 rest1)
                         (bytes_to_size (take 4 rest1)))))"

section \<open>Other functions\<close>

text \<open>Python's order on pairs of integers, and \<open>lst.index(x)\<close> for an \<open>x\<close> in the list.\<close>

definition pair_lt :: "int \<times> int \<Rightarrow> int \<times> int \<Rightarrow> bool" where
  "pair_lt a b = (fst a < fst b \<or> (fst a = fst b \<and> snd a < snd b))"

fun index_of :: "'a list \<Rightarrow> 'a \<Rightarrow> nat" where
  "index_of [] x = 0"
| "index_of (y # ys) x = (if y = x then 0 else Suc (index_of ys x))"

text \<open>
  \<open>improve_tree\<close> changes \<open>tree.left\<close> and \<open>tree.right\<close> in place; the model returns
  the tree after the call. The two \<open>avg_length\<close> calls of the source are kept: they can
  raise.
\<close>

definition improve_tree :: "nat \<Rightarrow> hnode \<Rightarrow> (int, int) dict \<Rightarrow> error + hnode" where
  "improve_tree fuel tree freq_dict =
     (case tree_to_bytes tree of
        Inl e \<Rightarrow> Inl e
      | Inr byte \<Rightarrow>
          (let l = py_sort (\<lambda>a b. pair_lt b a) (map (\<lambda>(key, value). (value, key)) freq_dict);
               il = py_sort (\<lambda>a b. a < b)
                      (map (\<lambda>i. index_of byte (snd i)) (filter (\<lambda>i. snd i \<in> set byte) l));
               byte1 = foldl (\<lambda>b index. b[il ! index := snd (l ! index)]) byte [0 ..< length il]
           in case bytes_to_nodes byte1 of
                Inl e \<Rightarrow> Inl e
              | Inr n \<Rightarrow>
                  (case generate_tree_postorder fuel n (int (length n) - 1) of
                     Inl e \<Rightarrow> Inl e
                   | Inr new_tree \<Rightarrow>
                       (case avg_length (Some tree) freq_dict of
                          Inl e \<Rightarrow> Inl e
                        | Inr a0 \<Rightarrow>
                            (case avg_length (Some new_tree) freq_dict of
                               Inl e \<Rightarrow> Inl e
                             | Inr a1 \<Rightarrow>
                                 Inr (HuffmanNode (symbol tree) (left new_tree) (right new_tree)
                                        (number tree)))))))"

section \<open>Notions the properties are stated with\<close>

text \<open>\<open>HuffmanNode(None, l, r)\<close>: an internal node, not yet numbered.\<close>

definition inner_node :: "hnode \<Rightarrow> hnode \<Rightarrow> hnode" where
  "inner_node l r = HuffmanNode None (Some l) (Some r) None"

text \<open>
  A full tree: every node has both children or none. The data model's trees
  (\<open>Leaf\<close>, \<open>Internal(left, right)\<close>) are the full ones.
\<close>

fun full_tree :: "hnode \<Rightarrow> bool" where
  "full_tree (HuffmanNode s None None n) = True"
| "full_tree (HuffmanNode s (Some l) (Some r) n) = (full_tree l \<and> full_tree r)"
| "full_tree (HuffmanNode s None (Some r) n) = False"
| "full_tree (HuffmanNode s (Some l) None n) = False"

text \<open>The number of internal nodes (nodes with a child).\<close>

fun internal_count :: "hnode \<Rightarrow> nat" where
  "internal_count (HuffmanNode s None None n) = 0"
| "internal_count (HuffmanNode s (Some l) (Some r) n) = Suc (internal_count l + internal_count r)"
| "internal_count (HuffmanNode s None (Some r) n) = Suc (internal_count r)"
| "internal_count (HuffmanNode s (Some l) None n) = Suc (internal_count l)"

text \<open>
  The \<open>number\<close> fields of the internal nodes, read in postorder (left subtree, right
  subtree, the node itself), and the leaf nodes from left to right.
\<close>

fun postorder_numbers :: "hnode \<Rightarrow> int option list" where
  "postorder_numbers (HuffmanNode s None None n) = []"
| "postorder_numbers (HuffmanNode s (Some l) (Some r) n) =
     postorder_numbers l @ postorder_numbers r @ [n]"
| "postorder_numbers (HuffmanNode s None (Some r) n) = postorder_numbers r @ [n]"
| "postorder_numbers (HuffmanNode s (Some l) None n) = postorder_numbers l @ [n]"

fun leaves :: "hnode \<Rightarrow> hnode list" where
  "leaves (HuffmanNode s None None n) = [HuffmanNode s None None n]"
| "leaves (HuffmanNode s (Some l) (Some r) n) = leaves l @ leaves r"
| "leaves (HuffmanNode s None (Some r) n) = leaves r"
| "leaves (HuffmanNode s (Some l) None n) = leaves l"

text \<open>
  Structural equality, in the spec's words: same shape and the same symbols at the same
  positions. The \<open>number\<close> fields are not compared: \<open>strip\<close> erases them.
\<close>

fun strip :: "hnode \<Rightarrow> hnode" where
  "strip (HuffmanNode s l r n) = HuffmanNode s (map_option strip l) (map_option strip r) None"

definition same_structure :: "hnode \<Rightarrow> hnode \<Rightarrow> bool" where
  "same_structure a b = (strip a = strip b)"

text \<open>
  \<open>numbered b t\<close>: the internal nodes of \<open>t\<close> carry the numbers \<open>b, b + 1, ...\<close> in
  postorder: the left subtree is numbered from \<open>b\<close>, the right one continues, the node
  itself comes last.
\<close>

fun numbered :: "int \<Rightarrow> hnode \<Rightarrow> bool" where
  "numbered b (HuffmanNode s None None n) = True"
| "numbered b (HuffmanNode s (Some l) (Some r) n) =
     (numbered b l \<and> numbered (b + int (internal_count l)) r
      \<and> n = Some (b + int (internal_count l) + int (internal_count r)))"
| "numbered b (HuffmanNode s None (Some r) n) = False"
| "numbered b (HuffmanNode s (Some l) None n) = False"

text \<open>
  What the bit scan of the unpacker emits when it runs over all the bits, with no
  bound on the number of symbols: whenever the candidate is a code, its symbol.
\<close>

fun emitted :: "(string, int) dict \<Rightarrow> string \<Rightarrow> string \<Rightarrow> int list" where
  "emitted codes [] new_bit = []"
| "emitted codes (b # one_bit) new_bit =
     (case map_of codes (new_bit @ [b]) of
        None \<Rightarrow> emitted codes one_bit (new_bit @ [b])
      | Some v \<Rightarrow> v # emitted codes one_bit [])"

text \<open>The symbols a tree carries, and the values a \<open>bytes\<close> object can hold.\<close>

fun tree_symbols :: "hnode \<Rightarrow> int list" where
  "tree_symbols (HuffmanNode s l r n) =
     (case s of None \<Rightarrow> [] | Some v \<Rightarrow> [v])
     @ (case l of None \<Rightarrow> [] | Some lt \<Rightarrow> tree_symbols lt)
     @ (case r of None \<Rightarrow> [] | Some rt \<Rightarrow> tree_symbols rt)"

definition is_byte :: "int \<Rightarrow> bool" where
  "is_byte v = (0 \<le> v \<and> v < 256)"

text \<open>
  A code-bearing tree, as the tree builder makes them: a full tree whose leaves carry a
  symbol and whose internal nodes carry none.
\<close>

fun code_tree :: "hnode \<Rightarrow> bool" where
  "code_tree (HuffmanNode s None None n) = (s \<noteq> None)"
| "code_tree (HuffmanNode s (Some l) (Some r) n) = (s = None \<and> code_tree l \<and> code_tree r)"
| "code_tree (HuffmanNode s None (Some r) n) = False"
| "code_tree (HuffmanNode s (Some l) None n) = False"

text \<open>
  A code table is prefix-free when, of any two of its entries, neither code is a prefix
  of the other (equal codes included).
\<close>

fun prefix_free :: "(int, string) dict \<Rightarrow> bool" where
  "prefix_free [] = True"
| "prefix_free (e # rest) =
     (list_all (\<lambda>e'. \<not> prefix (snd e) (snd e') \<and> \<not> prefix (snd e') (snd e)) rest
      \<and> prefix_free rest)"

text \<open>The symbols of a tree with the paths that lead to them, \<open>p\<close> being the path so far.\<close>

fun leaf_codes :: "hnode \<Rightarrow> string \<Rightarrow> (int \<times> string) list" where
  "leaf_codes (HuffmanNode s l r n) p =
     (case s of None \<Rightarrow> [] | Some v \<Rightarrow> [(v, p)])
     @ (case l of None \<Rightarrow> [] | Some lt \<Rightarrow> leaf_codes lt (p @ ''0''))
     @ (case r of None \<Rightarrow> [] | Some rt \<Rightarrow> leaf_codes rt (p @ ''1''))"

text \<open>
  For the working items of the tree builder: every node inside is a code-bearing tree;
  and the symbols inside.
\<close>

fun pl_ok :: "payload \<Rightarrow> bool" where
  "pl_ok (PNode h) = code_tree h"
| "pl_ok (PPair f0 x0 f1 x1) = (pl_ok x0 \<and> pl_ok x1)"

fun pl_symbols :: "payload \<Rightarrow> int set" where
  "pl_symbols (PNode h) = set (tree_symbols h)"
| "pl_symbols (PPair f0 x0 f1 x1) = (pl_symbols x0 \<union> pl_symbols x1)"

text \<open>The number of nodes on the longest branch: the recursion depth a walk of the tree needs.\<close>

fun depth :: "hnode \<Rightarrow> nat" where
  "depth (HuffmanNode s None None n) = 1"
| "depth (HuffmanNode s (Some l) (Some r) n) = Suc (max (depth l) (depth r))"
| "depth (HuffmanNode s None (Some r) n) = Suc (depth r)"
| "depth (HuffmanNode s (Some l) None n) = Suc (depth l)"

text \<open>
  The wire format, written out from the spec's words. A child that is a leaf is the pair
  \<open>(0, symbol)\<close>, an internal child is \<open>(1, number)\<close>; \<open>ser\<close> is the postorder sequence
  of the records of the internal nodes, each record being its two children.
  \<open>child_stub\<close> and \<open>record_of\<close> are the nodes the record reader builds from such a
  record, and \<open>records\<close> is their postorder list.
\<close>

fun child_bytes :: "hnode \<Rightarrow> int option list" where
  "child_bytes (HuffmanNode s None None n) = [Some 0, s]"
| "child_bytes (HuffmanNode s l r n) = [Some 1, n]"

fun child_stub :: "hnode \<Rightarrow> hnode" where
  "child_stub (HuffmanNode s None None n) = HuffmanNode s None None None"
| "child_stub (HuffmanNode s l r n) = HuffmanNode None None None n"

fun record_of :: "hnode \<Rightarrow> hnode" where
  "record_of (HuffmanNode s (Some l) (Some r) n) =
     HuffmanNode None (Some (child_stub l)) (Some (child_stub r)) None"
| "record_of (HuffmanNode s l r n) = HuffmanNode s None None None"

fun ser :: "hnode \<Rightarrow> int option list" where
  "ser (HuffmanNode s (Some l) (Some r) n) = ser l @ ser r @ child_bytes l @ child_bytes r"
| "ser (HuffmanNode s l r n) = []"

fun records :: "hnode \<Rightarrow> hnode list" where
  "records (HuffmanNode s (Some l) (Some r) n) =
     records l @ records r @ [record_of (HuffmanNode s (Some l) (Some r) n)]"
| "records (HuffmanNode s l r n) = []"

text \<open>
  \<open>recs_ok L t\<close>: the list \<open>L\<close> holds, at the number of every internal node of \<open>t\<close>, the
  record of that node.
\<close>

fun recs_ok :: "hnode list \<Rightarrow> hnode \<Rightarrow> bool" where
  "recs_ok L (HuffmanNode s None None n) = True"
| "recs_ok L (HuffmanNode s (Some l) (Some r) n) =
     ((case n of None \<Rightarrow> False
       | Some k \<Rightarrow> py_get L k = Inr (record_of (HuffmanNode s (Some l) (Some r) n)))
      \<and> recs_ok L l \<and> recs_ok L r)"
| "recs_ok L (HuffmanNode s None (Some r) n) = False"
| "recs_ok L (HuffmanNode s (Some l) None n) = False"

section \<open>Properties\<close>

text \<open>
  C1. The full pipeline is claimed to be the identity on every non-empty buffer,
  buffers with a single distinct symbol included. On the buffer \<open>AAA\<close> the tree
  builder returns a bare leaf, the numbering pass leaves it unnumbered, and the header
  field \<open>tree.number + 1\<close> adds one to \<open>None\<close>: compression raises TypeError and writes
  no artifact, whatever the node comparison is.
\<close>

theorem compress_single_symbol_TypeError:
  "compress node_lt [65, 65, 65] = Inl TypeError"
  by (simp add: compress_def make_freq_dict_def huffman_tree_def sort_freq_def py_sort_def
      leaf_node_def get_codes_def number_nodes_def avg_length_def round2_def
      num_nodes_to_bytes_def)

text \<open>
  C3. The two deserializers are claimed to build the same tree from the serialization
  of a numbered tree. For the tree \<open>((10 20) 30) 40\<close>, numbered and serialized by the
  codec itself, the general-index strategy returns the tree and the postorder strategy
  returns \<open>(10 20) 40\<close>: it fills the root's left child with the first record of the
  list, not with the record of the left child, and loses the leaf 30.
\<close>

theorem postorder_strategy_differs:
  "number_nodes
     (inner_node (inner_node (inner_node (leaf_node 10) (leaf_node 20)) (leaf_node 30))
        (leaf_node 40))
   = Inr (HuffmanNode None
            (Some (HuffmanNode None
                     (Some (HuffmanNode None (Some (leaf_node 10)) (Some (leaf_node 20)) (Some 0)))
                     (Some (leaf_node 30)) (Some 1)))
            (Some (leaf_node 40)) (Some 2))
   \<and> tree_to_bytes
       (HuffmanNode None
          (Some (HuffmanNode None
                   (Some (HuffmanNode None (Some (leaf_node 10)) (Some (leaf_node 20)) (Some 0)))
                   (Some (leaf_node 30)) (Some 1)))
          (Some (leaf_node 40)) (Some 2))
     = Inr [0, 10, 0, 20, 1, 0, 0, 30, 1, 1, 0, 40]
   \<and> bytes_to_nodes [0, 10, 0, 20, 1, 0, 0, 30, 1, 1, 0, 40]
     = Inr [ReadNode 0 10 0 20, ReadNode 1 0 0 30, ReadNode 1 1 0 40]
   \<and> generate_tree_general 1000 [ReadNode 0 10 0 20, ReadNode 1 0 0 30, ReadNode 1 1 0 40] 2
     = Inr (inner_node (inner_node (inner_node (leaf_node 10) (leaf_node 20)) (leaf_node 30))
              (leaf_node 40))
   \<and> generate_tree_postorder 1000 [ReadNode 0 10 0 20, ReadNode 1 0 0 30, ReadNode 1 1 0 40] 2
     = Inr (inner_node (inner_node (leaf_node 10) (leaf_node 20)) (leaf_node 40))"
  by code_simp

subsection \<open>Tree building and code tables\<close>

lemma set_py_insort: "set (py_insort lt x ys) = insert x (set ys)"
  by (induction ys) auto

lemma length_py_insort: "length (py_insort lt x ys) = Suc (length ys)"
  by (induction ys) auto

lemma py_sort_fold:
  "set (foldl (\<lambda>acc x. py_insort lt x acc) acc xs) = set acc \<union> set xs
   \<and> length (foldl (\<lambda>acc x. py_insort lt x acc) acc xs) = length acc + length xs"
  by (induction xs arbitrary: acc) (auto simp: set_py_insort length_py_insort)

lemma set_py_sort: "set (py_sort lt xs) = set xs"
  using py_sort_fold [of lt "[]" xs] by (simp add: py_sort_def)

lemma length_py_sort: "length (py_sort lt xs) = length xs"
  using py_sort_fold [of lt "[]" xs] by (simp add: py_sort_def)

lemma leaf_codes_prefix: "e \<in> set (leaf_codes t p) \<Longrightarrow> prefix p (snd e)"
proof (induction t arbitrary: p)
  case (HuffmanNode s l r n)
  from HuffmanNode.prems consider
    (a) v where "s = Some v" "e = (v, p)"
    | (b) lt where "l = Some lt" "e \<in> set (leaf_codes lt (p @ ''0''))"
    | (c) rt where "r = Some rt" "e \<in> set (leaf_codes rt (p @ ''1''))"
    by (auto split: option.splits)
  then show ?case
  proof cases
    case a
    then show ?thesis by simp
  next
    case b
    then have "prefix (p @ ''0'') (snd e)" using HuffmanNode.IH(1) by simp
    then show ?thesis using append_prefixD by blast
  next
    case c
    then have "prefix (p @ ''1'') (snd e)" using HuffmanNode.IH(2) by simp
    then show ?thesis using append_prefixD by blast
  qed
qed

lemma branch_clash: "prefix (p @ ''0'') c \<Longrightarrow> prefix (p @ ''1'') c' \<Longrightarrow> \<not> prefix c c' \<and> \<not> prefix c' c"
proof -
  assume a: "prefix (p @ ''0'') c" and b: "prefix (p @ ''1'') c'"
  then obtain x y where c: "c = p @ ''0'' @ x" and c': "c' = p @ ''1'' @ y"
    by (auto simp: prefix_def)
  show ?thesis unfolding c c' by (simp add: prefix_def)
qed

lemma leaf_codes_prefix_free:
  "code_tree t \<Longrightarrow> e1 \<in> set (leaf_codes t p) \<Longrightarrow> e2 \<in> set (leaf_codes t p) \<Longrightarrow>
   prefix (snd e1) (snd e2) \<Longrightarrow> e1 = e2"
proof (induction t arbitrary: p rule: code_tree.induct)
  case (1 s n)
  then show ?case by auto
next
  case (2 s l r n)
  from "2.prems"(1) have cl: "code_tree l" and cr: "code_tree r" and s: "s = None" by simp_all
  have mem: "e \<in> set (leaf_codes (HuffmanNode s (Some l) (Some r) n) p) \<longleftrightarrow>
      e \<in> set (leaf_codes l (p @ ''0'')) \<or> e \<in> set (leaf_codes r (p @ ''1''))" for e
    using s by simp
  from "2.prems"(2) mem consider (l1) "e1 \<in> set (leaf_codes l (p @ ''0''))"
    | (r1) "e1 \<in> set (leaf_codes r (p @ ''1''))" by blast
  then show ?case
  proof cases
    case l1
    from "2.prems"(3) mem consider (l2) "e2 \<in> set (leaf_codes l (p @ ''0''))"
      | (r2) "e2 \<in> set (leaf_codes r (p @ ''1''))" by blast
    then show ?thesis
    proof cases
      case l2
      show ?thesis by (rule "2.IH"(1) [OF cl l1 l2 "2.prems"(4)])
    next
      case r2
      have "\<not> prefix (snd e1) (snd e2)"
        using branch_clash [OF leaf_codes_prefix [OF l1] leaf_codes_prefix [OF r2]] by simp
      with "2.prems"(4) show ?thesis by simp
    qed
  next
    case r1
    from "2.prems"(3) mem consider (l2) "e2 \<in> set (leaf_codes l (p @ ''0''))"
      | (r2) "e2 \<in> set (leaf_codes r (p @ ''1''))" by blast
    then show ?thesis
    proof cases
      case l2
      have "\<not> prefix (snd e1) (snd e2)"
        using branch_clash [OF leaf_codes_prefix [OF l2] leaf_codes_prefix [OF r1]] by simp
      with "2.prems"(4) show ?thesis by simp
    next
      case r2
      show ?thesis by (rule "2.IH"(2) [OF cr r1 r2 "2.prems"(4)])
    qed
  qed
qed simp_all

lemma set_update_subset: "set (AList.update k v al) \<subseteq> insert (k, v) (set al)"
  by (induction al) auto

lemma subset_chain: "A \<subseteq> B \<union> C \<Longrightarrow> C \<subseteq> S \<Longrightarrow> B \<subseteq> D \<union> S \<Longrightarrow> A \<subseteq> D \<union> S"
  by blast

lemma gc_internal_entries:
  "set (gc_internal t p d) \<subseteq> set d \<union> set (leaf_codes t p)"
proof (induction t arbitrary: p d)
  case (HuffmanNode s l r n)
  define d0 where "d0 = (case s of None \<Rightarrow> d | Some v \<Rightarrow> AList.update v p d)"
  define d1 where "d1 = (case l of None \<Rightarrow> d0 | Some lt \<Rightarrow> gc_internal lt (p @ ''0'') d0)"
  define d2 where "d2 = (case r of None \<Rightarrow> d1 | Some rt \<Rightarrow> gc_internal rt (p @ ''1'') d1)"
  define S where "S = set (leaf_codes (HuffmanNode s l r n) p)"
  have res: "gc_internal (HuffmanNode s l r n) p d = d2"
    unfolding d2_def d1_def d0_def by (simp add: Let_def)
  have k0: "set d0 \<subseteq> set d \<union> S"
  proof (cases s)
    case None
    then show ?thesis by (simp add: d0_def le_supI1)
  next
    case (Some v)
    then have a: "set d0 \<subseteq> set d \<union> {(v, p)}"
      using set_update_subset [of v p d] by (simp add: d0_def)
    have b: "{(v, p)} \<subseteq> S" using Some by (simp add: S_def)
    show ?thesis using subset_chain [OF a b, of "set d"] by simp
  qed
  have k1: "set d1 \<subseteq> set d \<union> S"
  proof (cases l)
    case None
    then show ?thesis using k0 by (simp add: d1_def)
  next
    case (Some lt)
    have e: "d1 = gc_internal lt (p @ ''0'') d0" using Some by (simp add: d1_def)
    have a: "set d1 \<subseteq> set d0 \<union> set (leaf_codes lt (p @ ''0''))"
      unfolding e using HuffmanNode.IH(1) [of lt "p @ ''0''" d0] Some by simp
    have b: "set (leaf_codes lt (p @ ''0'')) \<subseteq> S"
      using Some by (simp add: S_def le_supI2 le_supI1)
    show ?thesis by (rule subset_chain [OF a b k0])
  qed
  have k2: "set d2 \<subseteq> set d \<union> S"
  proof (cases r)
    case None
    then show ?thesis using k1 by (simp add: d2_def)
  next
    case (Some rt)
    have e: "d2 = gc_internal rt (p @ ''1'') d1" using Some by (simp add: d2_def)
    have a: "set d2 \<subseteq> set d1 \<union> set (leaf_codes rt (p @ ''1''))"
      unfolding e using HuffmanNode.IH(2) [of rt "p @ ''1''" d1] Some by simp
    have b: "set (leaf_codes rt (p @ ''1'')) \<subseteq> S"
      using Some by (simp add: S_def le_supI2)
    show ?thesis by (rule subset_chain [OF a b k1])
  qed
  show ?case using k2 unfolding res S_def .
qed

lemma gc_internal_distinct:
  "distinct (map fst d) \<Longrightarrow> distinct (map fst (gc_internal t p d))"
proof (induction t arbitrary: p d)
  case (HuffmanNode s l r n)
  define d0 where "d0 = (case s of None \<Rightarrow> d | Some v \<Rightarrow> AList.update v p d)"
  define d1 where "d1 = (case l of None \<Rightarrow> d0 | Some lt \<Rightarrow> gc_internal lt (p @ ''0'') d0)"
  define d2 where "d2 = (case r of None \<Rightarrow> d1 | Some rt \<Rightarrow> gc_internal rt (p @ ''1'') d1)"
  have res: "gc_internal (HuffmanNode s l r n) p d = d2"
    unfolding d2_def d1_def d0_def by (simp add: Let_def)
  have k0: "distinct (map fst d0)"
    using HuffmanNode.prems by (cases s) (simp_all add: d0_def distinct_update)
  have k1: "distinct (map fst d1)"
  proof (cases l)
    case None
    then show ?thesis using k0 by (simp add: d1_def)
  next
    case (Some lt)
    then show ?thesis using HuffmanNode.IH(1) [of lt d0 "p @ ''0''"] k0 by (simp add: d1_def)
  qed
  have k2: "distinct (map fst d2)"
  proof (cases r)
    case None
    then show ?thesis using k1 by (simp add: d2_def)
  next
    case (Some rt)
    then show ?thesis using HuffmanNode.IH(2) [of rt d1 "p @ ''1''"] k1 by (simp add: d2_def)
  qed
  show ?case using k2 unfolding res .
qed

lemma prefix_freeI:
  "distinct (map fst d) \<Longrightarrow>
   (\<And>e1 e2. e1 \<in> set d \<Longrightarrow> e2 \<in> set d \<Longrightarrow> prefix (snd e1) (snd e2) \<Longrightarrow> e1 = e2) \<Longrightarrow>
   prefix_free d"
proof (induction d)
  case (Cons e rest)
  have "prefix_free rest"
    using Cons.IH Cons.prems by simp
  moreover have "\<not> prefix (snd e) (snd e') \<and> \<not> prefix (snd e') (snd e)" if m: "e' \<in> set rest" for e'
  proof -
    have ne: "e \<noteq> e'" using Cons.prems(1) m by force
    have "prefix (snd e) (snd e') \<Longrightarrow> e = e'"
      using Cons.prems(2) [of e e'] m by simp
    moreover have "prefix (snd e') (snd e) \<Longrightarrow> e' = e"
      using Cons.prems(2) [of e' e] m by simp
    ultimately show ?thesis using ne by blast
  qed
  ultimately show ?case by (simp add: list_all_iff)
qed simp

lemma get_codes_prefix_free: "code_tree t \<Longrightarrow> prefix_free (get_codes (Some t))"
proof -
  assume ct: "code_tree t"
  have sub: "set (gc_internal t [] []) \<subseteq> set (leaf_codes t [])"
    using gc_internal_entries [of t "[]" "[]"] by simp
  have dis: "distinct (map fst (gc_internal t [] []))"
    using gc_internal_distinct [of "[]" t "[]"] by simp
  have "prefix_free (gc_internal t [] [])"
  proof (rule prefix_freeI [OF dis])
    fix e1 e2
    assume "e1 \<in> set (gc_internal t [] [])" "e2 \<in> set (gc_internal t [] [])"
      and p: "prefix (snd e1) (snd e2)"
    then have "e1 \<in> set (leaf_codes t [])" "e2 \<in> set (leaf_codes t [])" using sub by blast+
    then show "e1 = e2" using leaf_codes_prefix_free [OF ct _ _ p] by blast
  qed
  then show ?thesis by (simp add: get_codes_def)
qed

declare ht_internal.simps [simp del]

lemma ht_internal_single:
  "ht_internal [(f, x)]
   = Some (HuffmanNode None (left (deduct_payload x)) (right (deduct_payload x)) None)"
  by (subst ht_internal.simps) (simp add: deduct_freq_def Let_def)

lemma ht_internal_step:
  assumes "py_sort (\<lambda>a b. fst a < fst b) st = a # b # rest"
  shows "ht_internal st
         = ht_internal (rest @ [(fst a + fst b, PPair (fst a) (snd a) (fst b) (snd b))])"
proof -
  have "length st = Suc (Suc (length rest))"
    using assms length_py_sort [of "\<lambda>a b. fst a < fst b" st] by simp
  then have "st \<noteq> []" "length st \<noteq> 1" by auto
  then show ?thesis
    by (subst ht_internal.simps) (simp add: Let_def assms)
qed

lemma code_tree_deduct: "pl_ok x \<Longrightarrow> code_tree (deduct_payload x)"
  by (induction x) simp_all

lemma symbols_deduct: "pl_ok x \<Longrightarrow> set (tree_symbols (deduct_payload x)) = pl_symbols x"
  by (induction x) simp_all

lemma ht_internal_code_tree:
  "(\<forall>it \<in> set st. pl_ok (snd it)) \<Longrightarrow>
   2 \<le> length st \<or> (\<exists>f f0 x0 f1 x1. st = [(f, PPair f0 x0 f1 x1)]) \<Longrightarrow>
   \<exists>T. ht_internal st = Some T \<and> code_tree T \<and> \<not> is_leaf T
       \<and> set (tree_symbols T) = (\<Union>it \<in> set st. pl_symbols (snd it))"
proof (induction st rule: length_induct)
  case (1 st)
  show ?case
  proof (cases "2 \<le> length st")
    case False
    with "1.prems"(2) obtain f f0 x0 f1 x1 where st: "st = [(f, PPair f0 x0 f1 x1)]" by blast
    from "1.prems"(1) st have ok: "pl_ok x0" "pl_ok x1" by simp_all
    let ?T = "HuffmanNode None (Some (deduct_payload x0)) (Some (deduct_payload x1)) None"
    have "ht_internal st = Some ?T" unfolding st by (simp add: ht_internal_single)
    moreover have "code_tree ?T" using ok by (simp add: code_tree_deduct)
    moreover have "\<not> is_leaf ?T" by (simp add: is_leaf_def)
    moreover have "set (tree_symbols ?T) = (\<Union>it \<in> set st. pl_symbols (snd it))"
      unfolding st using ok by (simp add: symbols_deduct)
    ultimately show ?thesis by blast
  next
    case True
    let ?srt = "py_sort (\<lambda>a b. fst a < fst b) st"
    have len: "length ?srt = length st" by (rule length_py_sort)
    have sset: "set ?srt = set st" by (rule set_py_sort)
    from True len obtain a b rest where srt: "?srt = a # b # rest"
      by (cases ?srt; cases "tl ?srt") auto
    let ?new = "rest @ [(fst a + fst b, PPair (fst a) (snd a) (fst b) (snd b))]"
    have step: "ht_internal st = ht_internal ?new" by (rule ht_internal_step [OF srt])
    have mem: "set st = insert a (insert b (set rest))" using sset srt by simp
    have oka: "pl_ok (snd a)" and okb: "pl_ok (snd b)"
      and okr: "\<forall>it \<in> set rest. pl_ok (snd it)"
      using "1.prems"(1) mem by simp_all
    have ok: "\<forall>it \<in> set ?new. pl_ok (snd it)" using oka okb okr by simp
    have shape: "2 \<le> length ?new \<or> (\<exists>f f0 x0 f1 x1. ?new = [(f, PPair f0 x0 f1 x1)])"
      by (cases rest) simp_all
    have shorter: "length ?new < length st" using len srt by simp
    have "\<exists>T. ht_internal ?new = Some T \<and> code_tree T \<and> \<not> is_leaf T
        \<and> set (tree_symbols T) = (\<Union>it \<in> set ?new. pl_symbols (snd it))"
      by (rule "1.IH" [rule_format, OF shorter ok [rule_format] shape])
    then obtain T where
      T: "ht_internal ?new = Some T" "code_tree T" "\<not> is_leaf T"
      and sy: "set (tree_symbols T) = (\<Union>it \<in> set ?new. pl_symbols (snd it))"
      by (elim exE conjE) (rule that; assumption)
    have "(\<Union>it \<in> set ?new. pl_symbols (snd it))
        = pl_symbols (snd a) \<union> pl_symbols (snd b) \<union> (\<Union>it \<in> set rest. pl_symbols (snd it))"
      by auto
    also have "\<dots> = (\<Union>it \<in> set st. pl_symbols (snd it))"
      unfolding mem by auto
    finally have "set (tree_symbols T) = (\<Union>it \<in> set st. pl_symbols (snd it))"
      using sy by simp
    with T step show ?thesis by simp
  qed
qed

lemma gc_internal_dom:
  "fst ` set (gc_internal t p d) = fst ` set d \<union> set (tree_symbols t)"
proof (induction t arbitrary: p d)
  case (HuffmanNode s l r n)
  define d0 where "d0 = (case s of None \<Rightarrow> d | Some v \<Rightarrow> AList.update v p d)"
  define d1 where "d1 = (case l of None \<Rightarrow> d0 | Some lt \<Rightarrow> gc_internal lt (p @ ''0'') d0)"
  define d2 where "d2 = (case r of None \<Rightarrow> d1 | Some rt \<Rightarrow> gc_internal rt (p @ ''1'') d1)"
  define S0 where "S0 = (case s of None \<Rightarrow> {} | Some v \<Rightarrow> {v})"
  define S1 where "S1 = (case l of None \<Rightarrow> {} | Some lt \<Rightarrow> set (tree_symbols lt))"
  define S2 where "S2 = (case r of None \<Rightarrow> {} | Some rt \<Rightarrow> set (tree_symbols rt))"
  have res: "gc_internal (HuffmanNode s l r n) p d = d2"
    unfolding d2_def d1_def d0_def by (simp add: Let_def)
  have sy: "set (tree_symbols (HuffmanNode s l r n)) = S0 \<union> S1 \<union> S2"
    unfolding S0_def S1_def S2_def by (simp split: option.splits)
  have k0: "fst ` set d0 = fst ` set d \<union> S0"
    by (cases s) (simp_all add: d0_def S0_def dom_update)
  have k1: "fst ` set d1 = fst ` set d0 \<union> S1"
  proof (cases l)
    case None
    then show ?thesis by (simp add: d1_def S1_def)
  next
    case (Some lt)
    then show ?thesis using HuffmanNode.IH(1) [of lt "p @ ''0''" d0] by (simp add: d1_def S1_def)
  qed
  have k2: "fst ` set d2 = fst ` set d1 \<union> S2"
  proof (cases r)
    case None
    then show ?thesis by (simp add: d2_def S2_def)
  next
    case (Some rt)
    then show ?thesis using HuffmanNode.IH(2) [of rt "p @ ''1''" d1] by (simp add: d2_def S2_def)
  qed
  show ?case unfolding res sy k2 k1 k0 by (simp add: Un_assoc)
qed

lemma sort_freq_items:
  "set (map (\<lambda>(f, h). (f, PNode h)) (sort_freq node_lt freq))
   = (\<lambda>(byte, count). (count, PNode (leaf_node byte))) ` set freq"
proof -
  have "set (sort_freq node_lt freq) = (\<lambda>(byte, count). (count, leaf_node byte)) ` set freq"
    by (simp add: sort_freq_def set_py_sort)
  then have "set (map (\<lambda>(f, h). (f, PNode h)) (sort_freq node_lt freq))
      = (\<lambda>(f, h). (f, PNode h)) ` (\<lambda>(byte, count). (count, leaf_node byte)) ` set freq"
    by simp
  also have "\<dots> = (\<lambda>(byte, count). (count, PNode (leaf_node byte))) ` set freq"
    by (simp add: image_image case_prod_beta)
  finally show ?thesis .
qed

text \<open>
  C4. For a frequency table with at least two keys, whatever the comparison of nodes
  is, the tree builder returns a tree, the code table derived from it is prefix-free
  (no code is a prefix of another code of the table, proper or not), and the table has
  a code for exactly the keys of the frequency table.
\<close>

theorem huffman_codes_prefix_free:
  assumes "2 \<le> length freq"
  shows "\<exists>T. huffman_tree node_lt freq = Some T \<and> prefix_free (get_codes (Some T))
           \<and> fst ` set (get_codes (Some T)) = fst ` set freq"
proof -
  let ?st = "map (\<lambda>(f, h). (f, PNode h)) (sort_freq node_lt freq)"
  have items: "set ?st = (\<lambda>(byte, count). (count, PNode (leaf_node byte))) ` set freq"
    by (rule sort_freq_items)
  have len: "2 \<le> length ?st"
    using assms by (simp add: sort_freq_def length_py_sort)
  have ok: "\<forall>it \<in> set ?st. pl_ok (snd it)"
    unfolding items by (simp add: case_prod_beta leaf_node_def)
  have sy: "(\<Union>it \<in> set ?st. pl_symbols (snd it)) = fst ` set freq"
    unfolding items by (auto simp: case_prod_beta leaf_node_def)
  from ht_internal_code_tree [OF ok disjI1 [OF len]] obtain T where
    T: "ht_internal ?st = Some T" and ct: "code_tree T"
    and ts: "set (tree_symbols T) = (\<Union>it \<in> set ?st. pl_symbols (snd it))"
    by (elim exE conjE) (rule that; assumption)
  have "length freq \<noteq> 1" using assms by simp
  then have h: "huffman_tree node_lt freq = Some T"
    using T by (simp add: huffman_tree_def Let_def)
  have pf: "prefix_free (get_codes (Some T))" by (rule get_codes_prefix_free [OF ct])
  have "fst ` set (get_codes (Some T)) = set (tree_symbols T)"
    using gc_internal_dom [of T "[]" "[]"] by (simp add: get_codes_def)
  then have "fst ` set (get_codes (Some T)) = fst ` set freq"
    using ts sy by simp
  with h pf show ?thesis by blast
qed

theorem huffman_codes_prefix_free_witness:
  "2 \<le> length [(2 :: int, 6 :: int), (3, 4)]
   \<and> huffman_tree (\<lambda>a b. False) [(2, 6), (3, 4)] = Some (inner_node (leaf_node 3) (leaf_node 2))
   \<and> prefix_free (get_codes (Some (inner_node (leaf_node 3) (leaf_node 2))))"
proof -
  have h: "2 \<le> length [(2 :: int, 6 :: int), (3, 4)]" by simp
  have e: "huffman_tree (\<lambda>a b. False) [(2, 6), (3, 4)]
      = Some (inner_node (leaf_node 3) (leaf_node 2))"
    by code_simp
  from huffman_codes_prefix_free [OF h, of "\<lambda>a b. False"] obtain T where
    "huffman_tree (\<lambda>a b. False) [(2, 6), (3, 4)] = Some T" and "prefix_free (get_codes (Some T))"
    by (elim exE conjE) (rule that; assumption)
  then have "prefix_free (get_codes (Some (inner_node (leaf_node 3) (leaf_node 2))))"
    using e by simp
  with h e show ?thesis by (intro conjI)
qed

subsection \<open>Numbering\<close>

lemma internal_count_strip: "internal_count (strip t) = internal_count t"
  by (induction t rule: internal_count.induct) simp_all

lemma full_tree_strip: "full_tree (strip t) = full_tree t"
  by (induction t rule: full_tree.induct) simp_all

lemma same_structure_refl: "same_structure t t"
  by (simp add: same_structure_def)

lemma same_structure_trans:
  "same_structure a b \<Longrightarrow> same_structure b c \<Longrightarrow> same_structure a c"
  by (simp add: same_structure_def)

lemma same_structure_count:
  "same_structure a b \<Longrightarrow> internal_count a = internal_count b \<and> full_tree a = full_tree b"
  by (metis same_structure_def internal_count_strip full_tree_strip)

lemma same_structure_node:
  "same_structure l' l \<Longrightarrow> same_structure r' r \<Longrightarrow>
   same_structure (HuffmanNode s (Some l') (Some r') n') (HuffmanNode s (Some l) (Some r) n)"
  by (simp add: same_structure_def)

lemma nn_internal_full:
  "full_tree T \<Longrightarrow>
   \<exists>T' l'. nn_internal T n op l = Inr (T', n + op * int (internal_count T), l')
     \<and> same_structure T' T \<and> leaves T' = leaves T
     \<and> (internal_count T = 0 \<longrightarrow> l' = l)
     \<and> (0 < internal_count T \<longrightarrow> l' \<noteq> [] \<and> last l' = n + op * (int (internal_count T) - 1))
     \<and> (op = - 1 \<longrightarrow> numbered (n - int (internal_count T) + 1) T')"
proof (induction T arbitrary: n l rule: full_tree.induct)
  case (1 s num)
  then show ?case by (simp add: same_structure_refl)
next
  case (2 s lt rt num)
  from "2.prems" have fl: "full_tree lt" and fr: "full_tree rt" by simp_all
  let ?kr = "internal_count rt" and ?kl = "internal_count lt"
  from "2.IH"(2) [OF fr, of "n + op" "l @ [n]"] obtain rt' l1 where
    r: "nn_internal rt (n + op) op (l @ [n]) = Inr (rt', n + op + op * int ?kr, l1)"
    and rs: "same_structure rt' rt" and rl: "leaves rt' = leaves rt"
    and r0: "?kr = 0 \<longrightarrow> l1 = l @ [n]"
    and r1: "0 < ?kr \<longrightarrow> l1 \<noteq> [] \<and> last l1 = n + op + op * (int ?kr - 1)"
    and rn: "op = - 1 \<longrightarrow> numbered (n + op - int ?kr + 1) rt'"
    by (elim exE conjE) (rule that; assumption)
  from "2.IH"(1) [OF fl, of "n + op + op * int ?kr" l1] obtain lt' l2 where
    l: "nn_internal lt (n + op + op * int ?kr) op l1
          = Inr (lt', n + op + op * int ?kr + op * int ?kl, l2)"
    and ls: "same_structure lt' lt" and ll: "leaves lt' = leaves lt"
    and l0: "?kl = 0 \<longrightarrow> l2 = l1"
    and l1: "0 < ?kl \<longrightarrow> l2 \<noteq> [] \<and> last l2 = n + op + op * int ?kr + op * (int ?kl - 1)"
    and ln: "op = - 1 \<longrightarrow> numbered (n + op + op * int ?kr - int ?kl + 1) lt'"
    by (elim exE conjE) (rule that; assumption)
  have cl: "internal_count lt' = ?kl" and cr: "internal_count rt' = ?kr"
    using same_structure_count ls rs by blast+
  let ?T' = "HuffmanNode s (Some lt') (Some rt') (Some n)"
  have res: "nn_internal (HuffmanNode s (Some lt) (Some rt) num) n op l
      = Inr (?T', n + op * int (Suc (?kl + ?kr)), l2)"
    using r l by (simp add: algebra_simps)
  have last2: "l2 \<noteq> [] \<and> last l2 = n + op * (int (Suc (?kl + ?kr)) - 1)"
  proof (cases "?kl = 0")
    case True
    then have e: "l2 = l1" using l0 by simp
    show ?thesis
    proof (cases "?kr = 0")
      case True
      with r0 e \<open>?kl = 0\<close> show ?thesis by simp
    next
      case False
      with r1 e \<open>?kl = 0\<close> show ?thesis by (simp add: algebra_simps)
    qed
  next
    case False
    with l1 show ?thesis by (simp add: algebra_simps)
  qed
  have num: "op = - 1 \<longrightarrow> numbered (n - int (Suc (?kl + ?kr)) + 1) ?T'"
  proof
    assume o: "op = - 1"
    from rn o have "numbered (n - int ?kr) rt'" by simp
    moreover from ln o have "numbered (n - int ?kr - int ?kl) lt'" by (simp add: algebra_simps)
    ultimately show "numbered (n - int (Suc (?kl + ?kr)) + 1) ?T'"
      by (simp add: cl cr algebra_simps)
  qed
  have ss: "same_structure ?T' (HuffmanNode s (Some lt) (Some rt) num)"
    by (rule same_structure_node [OF ls rs])
  have lv: "leaves ?T' = leaves (HuffmanNode s (Some lt) (Some rt) num)"
    using ll rl by simp
  have nz: "internal_count (HuffmanNode s (Some lt) (Some rt) num) = Suc (?kl + ?kr)" by simp
  show ?case
    unfolding nz using res ss lv last2 num
    by (intro exI [of _ ?T'] exI [of _ l2]) simp
next
  case (3 s r n)
  then show ?case by simp
next
  case (4 s l n)
  then show ?case by simp
qed

lemma postorder_numbers_numbered:
  "full_tree t \<Longrightarrow> numbered b t \<Longrightarrow>
   postorder_numbers t = map Some [b .. b + int (internal_count t) - 1]"
proof (induction t arbitrary: b rule: full_tree.induct)
  case (2 s l r n)
  let ?kl = "int (internal_count l)" and ?kr = "int (internal_count r)"
  from "2.prems" have fl: "full_tree l" and fr: "full_tree r"
    and nl: "numbered b l" and nr: "numbered (b + ?kl) r" and n: "n = Some (b + ?kl + ?kr)"
    by simp_all
  have pl: "postorder_numbers l = map Some [b .. b + ?kl - 1]"
    by (rule "2.IH"(1) [OF fl nl])
  have pr: "postorder_numbers r = map Some [b + ?kl .. b + ?kl + ?kr - 1]"
    by (rule "2.IH"(2) [OF fr nr])
  have a: "[b .. b + ?kl + ?kr] = [b .. b + ?kl + ?kr - 1] @ [b + ?kl + ?kr]"
    using upto_rec2 [of b "b + ?kl + ?kr"] by simp
  have c: "[b .. b + ?kl + ?kr - 1] = [b .. b + ?kl - 1] @ [b + ?kl .. b + ?kl + ?kr - 1]"
  proof (cases "internal_count l = 0")
    case True
    then show ?thesis by simp
  next
    case False
    then show ?thesis
      using upto_split2 [of b "b + ?kl - 1" "b + ?kl + ?kr - 1"] by simp
  qed
  have "int (internal_count (HuffmanNode s (Some l) (Some r) n)) - 1 = ?kl + ?kr"
    by simp
  then have "[b .. b + int (internal_count (HuffmanNode s (Some l) (Some r) n)) - 1]
      = [b .. b + ?kl + ?kr]"
    by (simp add: algebra_simps)
  then show ?case
    using pl pr n a c by simp
qed simp_all

lemma number_nodes_numbered:
  assumes "full_tree T" "\<not> is_leaf T"
  shows "\<exists>T'. number_nodes T = Inr T' \<and> same_structure T' T \<and> leaves T' = leaves T
           \<and> numbered 0 T' \<and> number T' = Some (int (internal_count T) - 1)"
proof -
  obtain s lt rt num where T: "T = HuffmanNode s (Some lt) (Some rt) num"
    using assms by (cases T rule: full_tree.cases) (auto simp: is_leaf_def)
  have k: "0 < internal_count T" using T by simp
  from nn_internal_full [OF assms(1), of 0 1 "[]"] k obtain T1 l1 where
    p1: "nn_internal T 0 1 [] = Inr (T1, int (internal_count T), l1)"
    and s1: "same_structure T1 T" and lv1: "leaves T1 = leaves T"
    and la: "last l1 = int (internal_count T) - 1"
    by auto
  have f1: "full_tree T1" and c1: "internal_count T1 = internal_count T"
    using same_structure_count [OF s1] assms(1) by simp_all
  from nn_internal_full [OF f1, of "last l1" "- 1" l1] obtain T2 l2 where
    p2: "nn_internal T1 (last l1) (- 1) l1 = Inr (T2, last l1 + - 1 * int (internal_count T1), l2)"
    and s2: "same_structure T2 T1" and lv2: "leaves T2 = leaves T1"
    and n2: "numbered (last l1 - int (internal_count T1) + 1) T2"
    by auto
  have num0: "numbered 0 T2" using n2 la c1 by simp
  have c2: "internal_count T2 = internal_count T" using same_structure_count [OF s2] c1 by simp
  have s: "same_structure T2 T"
    using s2 s1 same_structure_trans by blast
  have root: "number T2 = Some (int (internal_count T) - 1)"
  proof -
    obtain s2 lt2 rt2 num2 where T2: "T2 = HuffmanNode s2 (Some lt2) (Some rt2) num2"
      using s T by (cases T2; cases "left T2"; cases "right T2") (auto simp: same_structure_def)
    from num0 T2 have "num2 = Some (int (internal_count lt2) + int (internal_count rt2))" by simp
    moreover from c2 T2 have "int (internal_count T) = int (internal_count lt2) + int (internal_count rt2) + 1"
      by simp
    ultimately show ?thesis using T2 by simp
  qed
  show ?thesis
    using p1 p2 s lv1 lv2 num0 root T by (simp add: number_nodes_def)
qed

text \<open>
  C5. For a full tree whose root is internal, with \<open>k\<close> internal nodes,
  \<open>number_nodes\<close> returns normally; the tree keeps its structure and its leaf nodes
  (no leaf is numbered or changed), the numbers of the internal nodes read in postorder
  are \<open>0, 1, ..., k - 1\<close>, and the root has \<open>k - 1\<close>.
\<close>

theorem number_nodes_postorder:
  assumes "full_tree T" and "\<not> is_leaf T"
  shows "\<exists>T'. number_nodes T = Inr T' \<and> same_structure T' T \<and> leaves T' = leaves T
           \<and> postorder_numbers T' = map Some [0 .. int (internal_count T) - 1]
           \<and> number T' = Some (int (internal_count T) - 1)"
proof -
  from number_nodes_numbered [OF assms] obtain T' where
    r: "number_nodes T = Inr T'" and s: "same_structure T' T" and l: "leaves T' = leaves T"
    and n: "numbered 0 T'" and k: "number T' = Some (int (internal_count T) - 1)"
    by blast
  have f: "full_tree T'" and c: "internal_count T' = internal_count T"
    using same_structure_count [OF s] assms(1) by simp_all
  have "postorder_numbers T' = map Some [0 .. int (internal_count T) - 1]"
    using postorder_numbers_numbered [OF f n] c by simp
  with r s l k show ?thesis by blast
qed

theorem number_nodes_postorder_witness:
  "full_tree
     (inner_node (inner_node (leaf_node 3) (leaf_node 2))
        (inner_node (leaf_node 9) (leaf_node 10)))
   \<and> \<not> is_leaf
       (inner_node (inner_node (leaf_node 3) (leaf_node 2))
          (inner_node (leaf_node 9) (leaf_node 10)))
   \<and> (\<exists>T'. number_nodes
              (inner_node (inner_node (leaf_node 3) (leaf_node 2))
                 (inner_node (leaf_node 9) (leaf_node 10))) = Inr T'
          \<and> postorder_numbers T' = [Some 0, Some 1, Some 2]
          \<and> number T' = Some 2)"
proof -
  let ?T = "inner_node (inner_node (leaf_node 3) (leaf_node 2))
              (inner_node (leaf_node 9) (leaf_node 10))"
  have h1: "full_tree ?T" by (simp add: inner_node_def leaf_node_def)
  have h2: "\<not> is_leaf ?T" by (simp add: inner_node_def is_leaf_def)
  have k: "internal_count ?T = 3" by (simp add: inner_node_def leaf_node_def)
  have u: "[0 .. int 3 - 1] = [0, 1, 2]" by (simp add: upto.simps)
  from number_nodes_postorder [OF h1 h2] obtain T' where
    "number_nodes ?T = Inr T'" and "postorder_numbers T' = map Some [0 .. int (internal_count ?T) - 1]"
    and "number T' = Some (int (internal_count ?T) - 1)"
    by blast
  then have "number_nodes ?T = Inr T' \<and> postorder_numbers T' = [Some 0, Some 1, Some 2]
      \<and> number T' = Some 2"
    unfolding k u by simp
  then show ?thesis using h1 h2 by blast
qed

subsection \<open>Serialization and the general-index reader\<close>

lemma is_leaf_simps [simp]:
  "is_leaf (HuffmanNode s None None n)"
  "\<not> is_leaf (HuffmanNode s (Some a) y n)"
  "\<not> is_leaf (HuffmanNode s x (Some b) n)"
  by (simp_all add: is_leaf_def)

lemma leaf_cases:
  obtains (Leaf) s n where "t = HuffmanNode s None None n"
  | (Inner) "\<not> is_leaf t"
  by (cases t; cases "left t"; cases "right t") auto

lemma ser_leaf: "is_leaf t \<Longrightarrow> ser t = []"
  by (cases t rule: leaf_cases) auto

lemma child_bytes_leaf: "is_leaf t \<Longrightarrow> child_bytes t = leaf t"
  by (cases t rule: leaf_cases) (auto simp: leaf_def)

lemma child_bytes_inner: "\<not> is_leaf t \<Longrightarrow> child_bytes t = [Some 1, number t]"
  by (cases t; cases "left t"; cases "right t") auto

lemma ttb_internal_ser:
  "full_tree t \<Longrightarrow> \<not> is_leaf t \<Longrightarrow> ttb_internal t acc = Inr (acc @ ser t)"
proof (induction t arbitrary: acc rule: full_tree.induct)
  case (2 s l r n)
  from "2.prems" have fl: "full_tree l" and fr: "full_tree r" by simp_all
  show ?case
  proof (cases "is_leaf l")
    case ll: True
    show ?thesis
    proof (cases "is_leaf r")
      case True
      with ll show ?thesis by (simp add: ser_leaf child_bytes_leaf)
    next
      case False
      have "ttb_internal r acc = Inr (acc @ ser r)" by (rule "2.IH"(2) [OF fr False])
      with ll False show ?thesis
        by (simp add: ser_leaf child_bytes_leaf child_bytes_inner)
    qed
  next
    case nl: False
    have il: "ttb_internal l acc = Inr (acc @ ser l)" by (rule "2.IH"(1) [OF fl nl])
    show ?thesis
    proof (cases "is_leaf r")
      case True
      with nl il show ?thesis
        by (simp add: ser_leaf child_bytes_leaf child_bytes_inner)
    next
      case False
      have "ttb_internal r (acc @ ser l) = Inr ((acc @ ser l) @ ser r)"
        by (rule "2.IH"(2) [OF fr False])
      with nl False il show ?thesis
        by (simp add: child_bytes_inner)
    qed
  qed
qed simp_all

lemma code_tree_full: "code_tree t \<Longrightarrow> full_tree t"
  by (induction t rule: code_tree.induct) simp_all

lemma bytes_append:
  "bytes xs = Inr a \<Longrightarrow> bytes ys = Inr b \<Longrightarrow> bytes (xs @ ys) = Inr (a @ b)"
  by (induction xs arbitrary: a rule: bytes.induct) (auto split: if_splits sum.splits)

lemma bytes_to_nodes_append:
  "bytes_to_nodes a = Inr na \<Longrightarrow> bytes_to_nodes b = Inr nb \<Longrightarrow>
   bytes_to_nodes (a @ b) = Inr (na @ nb)"
  by (induction a arbitrary: na rule: bytes_to_nodes.induct) (auto split: sum.splits)

lemma number_of_numbered:
  "full_tree t \<Longrightarrow> \<not> is_leaf t \<Longrightarrow> numbered b t \<Longrightarrow>
   number t = Some (b + int (internal_count t) - 1)"
  by (cases t rule: full_tree.cases) auto

lemma child_reading:
  assumes "code_tree c" and "list_all is_byte (tree_symbols c)" and "numbered b c"
    and "0 \<le> b" and "b + int (internal_count c) \<le> 256"
  shows "\<exists>ty da. child_bytes c = [Some ty, Some da] \<and> is_byte ty \<and> is_byte da
           \<and> ((ty = 0 \<and> child_stub c = leaf_node da) \<or> (ty = 1 \<and> child_stub c = ref_node da))"
proof (cases c rule: leaf_cases)
  case (Leaf s n)
  with assms(1) obtain v where s: "s = Some v" by auto
  with Leaf assms(2) have "is_byte v" by simp
  then show ?thesis using Leaf s by (simp add: leaf_node_def is_byte_def)
next
  case Inner
  have n: "number c = Some (b + int (internal_count c) - 1)"
    by (rule number_of_numbered [OF code_tree_full [OF assms(1)] Inner assms(3)])
  have pos: "0 < internal_count c"
    using Inner by (cases c rule: internal_count.cases) auto
  have rng: "is_byte (b + int (internal_count c) - 1)"
    using assms(4,5) pos by (simp add: is_byte_def)
  have st: "child_stub c = ref_node (b + int (internal_count c) - 1)"
    using Inner n by (cases c rule: child_stub.cases) (auto simp: ref_node_def)
  show ?thesis
    using Inner n rng st by (simp add: child_bytes_inner is_byte_def)
qed

lemma record_reading:
  assumes "child_bytes l = [Some t1, Some d1]" "child_bytes r = [Some t2, Some d2]"
    and "is_byte t1" "is_byte d1" "is_byte t2" "is_byte d2"
    and "(t1 = 0 \<and> child_stub l = leaf_node d1) \<or> (t1 = 1 \<and> child_stub l = ref_node d1)"
    and "(t2 = 0 \<and> child_stub r = leaf_node d2) \<or> (t2 = 1 \<and> child_stub r = ref_node d2)"
  shows "bytes (child_bytes l @ child_bytes r) = Inr [t1, d1, t2, d2]
         \<and> bytes_to_nodes [t1, d1, t2, d2] = Inr [ReadNode t1 d1 t2 d2]
         \<and> helper_node (ReadNode t1 d1 t2 d2)
           = HuffmanNode None (Some (child_stub l)) (Some (child_stub r)) None"
proof -
  have b: "bytes [Some t1, Some d1, Some t2, Some d2] = Inr [t1, d1, t2, d2]"
    using assms(3-6) by (simp add: is_byte_def)
  have n: "bytes_to_nodes [t1, d1, t2, d2] = Inr [ReadNode t1 d1 t2 d2]"
    by simp
  have h: "helper_node (ReadNode t1 d1 t2 d2)
      = HuffmanNode None (Some (child_stub l)) (Some (child_stub r)) None"
    using assms(7,8) by (elim disjE conjE) simp_all
  show ?thesis
    using b n h by (simp only: assms(1,2) append_Cons append_Nil simp_thms)
qed

lemma code_tree_symbols_children:
  "list_all is_byte (tree_symbols (HuffmanNode s (Some l) (Some r) n)) \<Longrightarrow>
   list_all is_byte (tree_symbols l) \<and> list_all is_byte (tree_symbols r)"
  by (simp split: option.splits)

lemma serialize_records:
  "code_tree t \<Longrightarrow> list_all is_byte (tree_symbols t) \<Longrightarrow> numbered b t \<Longrightarrow> 0 \<le> b \<Longrightarrow>
   b + int (internal_count t) \<le> 256 \<Longrightarrow>
   \<exists>bs ns. bytes (ser t) = Inr bs \<and> bytes_to_nodes bs = Inr ns \<and> map helper_node ns = records t"
proof (induction t arbitrary: b rule: code_tree.induct)
  case (1 s n)
  then show ?case by simp
next
  case (2 s l r n)
  let ?kl = "int (internal_count l)" and ?kr = "int (internal_count r)"
  from "2.prems"(1) have cl: "code_tree l" and cr: "code_tree r" by simp_all
  from code_tree_symbols_children [OF "2.prems"(2)]
  have bl: "list_all is_byte (tree_symbols l)" and br: "list_all is_byte (tree_symbols r)"
    by simp_all
  from "2.prems"(3) have nl: "numbered b l" and nr: "numbered (b + ?kl) r" by simp_all
  have rl: "b + ?kl \<le> 256" and b0: "0 \<le> b + ?kl" and rr: "b + ?kl + ?kr \<le> 256"
    using "2.prems"(4,5) by simp_all
  from "2.IH"(1) [OF cl bl nl "2.prems"(4) rl] obtain bs1 ns1 where
    l: "bytes (ser l) = Inr bs1" "bytes_to_nodes bs1 = Inr ns1" "map helper_node ns1 = records l"
    by (elim exE conjE) (rule that; assumption)
  from "2.IH"(2) [OF cr br nr b0 rr] obtain bs2 ns2 where
    r: "bytes (ser r) = Inr bs2" "bytes_to_nodes bs2 = Inr ns2" "map helper_node ns2 = records r"
    by (elim exE conjE) (rule that; assumption)
  from child_reading [OF cl bl nl "2.prems"(4) rl] obtain t1 d1 where
    c1: "child_bytes l = [Some t1, Some d1]" "is_byte t1" "is_byte d1"
      "(t1 = 0 \<and> child_stub l = leaf_node d1) \<or> (t1 = 1 \<and> child_stub l = ref_node d1)"
    by (elim exE conjE) (rule that; assumption)
  from child_reading [OF cr br nr b0 rr] obtain t2 d2 where
    c2: "child_bytes r = [Some t2, Some d2]" "is_byte t2" "is_byte d2"
      "(t2 = 0 \<and> child_stub r = leaf_node d2) \<or> (t2 = 1 \<and> child_stub r = ref_node d2)"
    by (elim exE conjE) (rule that; assumption)
  from record_reading [OF c1(1) c2(1) c1(2,3) c2(2,3) c1(4) c2(4)]
  have rec: "bytes (child_bytes l @ child_bytes r) = Inr [t1, d1, t2, d2]"
    "bytes_to_nodes [t1, d1, t2, d2] = Inr [ReadNode t1 d1 t2 d2]"
    "helper_node (ReadNode t1 d1 t2 d2)
       = HuffmanNode None (Some (child_stub l)) (Some (child_stub r)) None"
    by simp_all
  let ?bs = "bs1 @ bs2 @ [t1, d1, t2, d2]"
  let ?ns = "ns1 @ ns2 @ [ReadNode t1 d1 t2 d2]"
  have "bytes (ser r @ child_bytes l @ child_bytes r) = Inr (bs2 @ [t1, d1, t2, d2])"
    by (rule bytes_append [OF r(1) rec(1)])
  then have "bytes (ser l @ ser r @ child_bytes l @ child_bytes r) = Inr ?bs"
    by (rule bytes_append [OF l(1)])
  then have e1: "bytes (ser (HuffmanNode s (Some l) (Some r) n)) = Inr ?bs" by simp
  have "bytes_to_nodes (bs2 @ [t1, d1, t2, d2]) = Inr (ns2 @ [ReadNode t1 d1 t2 d2])"
    by (rule bytes_to_nodes_append [OF r(2) rec(2)])
  then have e2: "bytes_to_nodes ?bs = Inr ?ns"
    by (rule bytes_to_nodes_append [OF l(2)])
  have e3: "map helper_node ?ns = records (HuffmanNode s (Some l) (Some r) n)"
    using l(3) r(3) rec(3) by simp
  from e1 e2 e3 show ?case by blast
qed simp_all

lemma records_length: "full_tree t \<Longrightarrow> length (records t) = internal_count t"
  by (induction t rule: full_tree.induct) simp_all

lemma py_get_nth: "k < length xs \<Longrightarrow> py_get xs (int k) = Inr (xs ! k)"
  by (simp add: py_get_def list_pos_def)

lemma recs_ok_records:
  "code_tree t \<Longrightarrow> numbered (int (length pre)) t \<Longrightarrow> recs_ok (pre @ records t @ post) t"
proof (induction t arbitrary: pre post rule: code_tree.induct)
  case (2 s l r n)
  let ?t = "HuffmanNode s (Some l) (Some r) n"
  let ?L = "pre @ records ?t @ post"
  from "2.prems"(1) have cl: "code_tree l" and cr: "code_tree r" by simp_all
  have ll: "length (records l) = internal_count l" and lr: "length (records r) = internal_count r"
    using cl cr by (simp_all add: records_length code_tree_full)
  from "2.prems"(2) have nl: "numbered (int (length pre)) l"
    and nr: "numbered (int (length pre) + int (internal_count l)) r"
    and n: "n = Some (int (length pre) + int (internal_count l) + int (internal_count r))"
    by simp_all
  have L1: "?L = pre @ records l @ (records r @ [record_of ?t] @ post)" by simp
  have L2: "?L = (pre @ records l) @ records r @ ([record_of ?t] @ post)" by simp
  have L3: "?L = (pre @ records l @ records r) @ record_of ?t # post" by simp
  have okl: "recs_ok ?L l" unfolding L1 by (rule "2.IH"(1) [OF cl nl])
  have "numbered (int (length (pre @ records l))) r" using nr ll by simp
  then have okr: "recs_ok ?L r" unfolding L2 by (rule "2.IH"(2) [OF cr])
  let ?k = "length pre + internal_count l + internal_count r"
  have kk: "?k = length (pre @ records l @ records r)" using ll lr by simp
  have "?L ! ?k = record_of ?t" unfolding kk L3 by (rule nth_append_length)
  moreover have "?k < length ?L" using ll lr by simp
  ultimately have "py_get ?L (int ?k) = Inr (record_of ?t)"
    using py_get_nth [of ?k ?L] by simp
  moreover have "n = Some (int ?k)" using n by simp
  ultimately have root: "case n of None \<Rightarrow> False | Some k \<Rightarrow> py_get ?L k = Inr (record_of ?t)"
    by simp
  show ?case using root okl okr by (simp only: recs_ok.simps simp_thms)
qed simp_all

lemma resolve_child:
  assumes "code_tree c" and "recs_ok L c"
  shows "(if symbol (child_stub c) = None then resolve L (child_stub c) else Inr (child_stub c))
         = Inr (record_of c)"
proof (cases c rule: code_tree.cases)
  case (1 s n)
  with assms(1) show ?thesis by auto
next
  case (2 s l r n)
  with assms(2) obtain k where k: "n = Some k"
    and g: "py_get L k = Inr (record_of (HuffmanNode s (Some l) (Some r) n))"
    by (cases n) auto
  show ?thesis unfolding 2 using k g by (simp add: resolve_def duplicate_node_def)
next
  case (3 s r n)
  with assms(1) show ?thesis by simp
next
  case (4 s l n)
  with assms(1) show ?thesis by simp
qed

lemma create_tree_records:
  "code_tree t \<Longrightarrow> recs_ok L t \<Longrightarrow> depth t \<le> fuel \<Longrightarrow>
   create_tree fuel L (record_of t) = Inr (strip t)"
proof (induction t arbitrary: fuel rule: code_tree.induct)
  case (1 s n)
  then obtain f where "fuel = Suc f" by (cases fuel) auto
  with 1 show ?case by auto
next
  case (2 s l r n)
  from "2.prems"(3) obtain f where f: "fuel = Suc f" and dl: "depth l \<le> f" and dr: "depth r \<le> f"
    by (cases fuel) auto
  from "2.prems"(1) have cl: "code_tree l" and cr: "code_tree r" and s: "s = None" by simp_all
  from "2.prems"(2) have ol: "recs_ok L l" and or: "recs_ok L r" by simp_all
  have rl: "(if symbol (child_stub l) = None then resolve L (child_stub l) else Inr (child_stub l))
      = Inr (record_of l)" by (rule resolve_child [OF cl ol])
  have rr: "(if symbol (child_stub r) = None then resolve L (child_stub r) else Inr (child_stub r))
      = Inr (record_of r)" by (rule resolve_child [OF cr or])
  have il: "create_tree f L (record_of l) = Inr (strip l)" by (rule "2.IH"(1) [OF cl ol dl])
  have ir: "create_tree f L (record_of r) = Inr (strip r)" by (rule "2.IH"(2) [OF cr or dr])
  show ?case
    unfolding f using s by (simp add: rl rr il ir)
qed simp_all

lemma strip_idem: "strip (strip t) = strip t"
  by (induction t rule: depth.induct) simp_all

lemma code_tree_strip: "code_tree (strip t) = code_tree t"
  by (induction t rule: code_tree.induct) simp_all

lemma tree_symbols_strip: "tree_symbols (strip t) = tree_symbols t"
  by (induction t rule: depth.induct) simp_all

lemma depth_strip: "depth (strip t) = depth t"
  by (induction t rule: depth.induct) simp_all

lemma is_leaf_strip: "is_leaf (strip t) = is_leaf t"
  by (cases t) (simp add: is_leaf_def)

lemma code_tree_leaf_count: "code_tree t \<Longrightarrow> length (tree_symbols t) = Suc (internal_count t)"
  by (induction t rule: code_tree.induct) auto

lemma distinct_bytes_length:
  assumes "distinct xs" and "list_all is_byte xs"
  shows "length xs \<le> 256"
proof -
  have "set xs \<subseteq> {0 ..< 256}" using assms(2) by (auto simp: list_all_iff is_byte_def)
  then have "card (set xs) \<le> card {0 ..< 256 :: int}" by (intro card_mono) simp_all
  then show ?thesis using distinct_card [OF assms(1)] by simp
qed

text \<open>
  C2. Let \<open>T0\<close> be a Huffman tree (a full tree with distinct byte symbols at its leaves
  and none at its internal nodes) whose root is internal, and \<open>T\<close> the tree the numbering
  pass makes of it. Then \<open>T\<close> serializes, the bytes read back as records, the root has a
  number \<open>j\<close>, and the general-index reader started at \<open>j\<close> with a recursion depth of at
  least the depth of the tree returns a tree structurally equal to \<open>T\<close>.
\<close>

theorem general_deserialize_roundtrip:
  assumes "code_tree T0" and "\<not> is_leaf T0"
    and "list_all is_byte (tree_symbols T0)" and "distinct (tree_symbols T0)"
    and "number_nodes T0 = Inr T" and "depth T0 \<le> fuel"
  shows "\<exists>bs ns j G. tree_to_bytes T = Inr bs \<and> bytes_to_nodes bs = Inr ns
           \<and> number T = Some j \<and> generate_tree_general fuel ns j = Inr G
           \<and> same_structure G T"
proof -
  from number_nodes_numbered [OF code_tree_full [OF assms(1)] assms(2)] assms(5)
  have ss: "same_structure T T0" and num: "numbered 0 T" by auto
  have st: "strip T = strip T0" using ss by (simp add: same_structure_def)
  have ct: "code_tree T" using code_tree_strip [of T] code_tree_strip [of T0] st assms(1) by simp
  have nl: "\<not> is_leaf T" using is_leaf_strip [of T] is_leaf_strip [of T0] st assms(2) by simp
  have sy: "tree_symbols T = tree_symbols T0"
    using tree_symbols_strip [of T] tree_symbols_strip [of T0] st by simp
  have dp: "depth T \<le> fuel" using depth_strip [of T] depth_strip [of T0] st assms(6) by simp
  have byt: "list_all is_byte (tree_symbols T)" using sy assms(3) by simp
  have "Suc (internal_count T) \<le> 256"
    using code_tree_leaf_count [OF ct] distinct_bytes_length [OF assms(4,3)] sy by simp
  then have bound: "0 + int (internal_count T) \<le> 256" by simp
  from serialize_records [OF ct byt num _ bound] obtain bs ns where
    b: "bytes (ser T) = Inr bs" and n: "bytes_to_nodes bs = Inr ns"
    and h: "map helper_node ns = records T"
    by auto
  have "ttb_internal T [] = Inr ([] @ ser T)"
    by (rule ttb_internal_ser [OF code_tree_full [OF ct] nl])
  then have tb: "tree_to_bytes T = Inr bs" using b by (simp add: tree_to_bytes_def)
  have "recs_ok ([] @ records T @ []) T" by (rule recs_ok_records [OF ct]) (simp add: num)
  then have ok: "recs_ok (records T) T" by simp
  obtain s l r k where T: "T = HuffmanNode s (Some l) (Some r) (Some k)"
    and g: "py_get (records T) k = Inr (record_of T)"
    using ok nl by (cases T rule: full_tree.cases) (auto split: option.splits)
  have dup: "duplicate_node (record_of T) = record_of T"
    unfolding T by (simp add: duplicate_node_def)
  have "create_tree fuel (records T) (record_of T) = Inr (strip T)"
    by (rule create_tree_records [OF ct ok dp])
  then have gen: "generate_tree_general fuel ns k = Inr (strip T)"
    using g dup h by (simp add: generate_tree_general_def helper_generate_tree_def)
  have "same_structure (strip T) T" by (simp add: same_structure_def strip_idem)
  moreover have "number T = Some k" using T by simp
  ultimately show ?thesis using tb n gen by blast
qed

theorem general_deserialize_roundtrip_witness:
  "code_tree (inner_node (inner_node (leaf_node 3) (leaf_node 2)) (leaf_node 5))
   \<and> \<not> is_leaf (inner_node (inner_node (leaf_node 3) (leaf_node 2)) (leaf_node 5))
   \<and> list_all is_byte
       (tree_symbols (inner_node (inner_node (leaf_node 3) (leaf_node 2)) (leaf_node 5)))
   \<and> distinct (tree_symbols (inner_node (inner_node (leaf_node 3) (leaf_node 2)) (leaf_node 5)))
   \<and> number_nodes (inner_node (inner_node (leaf_node 3) (leaf_node 2)) (leaf_node 5))
     = Inr (HuffmanNode None
              (Some (HuffmanNode None (Some (leaf_node 3)) (Some (leaf_node 2)) (Some 0)))
              (Some (leaf_node 5)) (Some 1))
   \<and> depth (inner_node (inner_node (leaf_node 3) (leaf_node 2)) (leaf_node 5)) \<le> 1000
   \<and> (\<exists>bs ns j G.
         tree_to_bytes
           (HuffmanNode None
              (Some (HuffmanNode None (Some (leaf_node 3)) (Some (leaf_node 2)) (Some 0)))
              (Some (leaf_node 5)) (Some 1)) = Inr bs
         \<and> bytes_to_nodes bs = Inr ns
         \<and> number
             (HuffmanNode None
                (Some (HuffmanNode None (Some (leaf_node 3)) (Some (leaf_node 2)) (Some 0)))
                (Some (leaf_node 5)) (Some 1)) = Some j
         \<and> generate_tree_general 1000 ns j = Inr G
         \<and> same_structure G
             (HuffmanNode None
                (Some (HuffmanNode None (Some (leaf_node 3)) (Some (leaf_node 2)) (Some 0)))
                (Some (leaf_node 5)) (Some 1)))"
proof -
  let ?W = "inner_node (inner_node (leaf_node 3) (leaf_node 2)) (leaf_node 5)"
  have h1: "code_tree ?W" by code_simp
  have h2: "\<not> is_leaf ?W" by code_simp
  have h3: "list_all is_byte (tree_symbols ?W)" by code_simp
  have h4: "distinct (tree_symbols ?W)" by code_simp
  have h5: "number_nodes ?W
      = Inr (HuffmanNode None
               (Some (HuffmanNode None (Some (leaf_node 3)) (Some (leaf_node 2)) (Some 0)))
               (Some (leaf_node 5)) (Some 1))"
    by code_simp
  have h6: "depth ?W \<le> 1000" by code_simp
  note c = general_deserialize_roundtrip [OF h1 h2 h3 h4 h5 h6]
  show ?thesis
    by (rule conjI [OF h1 conjI [OF h2 conjI [OF h3 conjI [OF h4 conjI [OF h5 conjI [OF h6 c]]]]]])
qed

text \<open>
  C6. The optimizer is claimed never to increase the weighted average code length.
  For the numbered tree \<open>100 (101 102)\<close> and the frequencies \<open>{100: 2, 101: 1, 102: 1}\<close>
  the average is 1.5 before the call and 1.75 after it: the symbols are written, most
  frequent first, to the symbol positions of the serialization in byte order, which
  starts with the deepest record, so the most frequent symbol moves from depth 1 to
  depth 2.
\<close>

theorem improve_tree_increases_avg_length:
  "number_nodes (inner_node (leaf_node 100) (inner_node (leaf_node 101) (leaf_node 102)))
   = Inr (HuffmanNode None (Some (leaf_node 100))
            (Some (HuffmanNode None (Some (leaf_node 101)) (Some (leaf_node 102)) (Some 0)))
            (Some 1))
   \<and> improve_tree 1000
       (HuffmanNode None (Some (leaf_node 100))
          (Some (HuffmanNode None (Some (leaf_node 101)) (Some (leaf_node 102)) (Some 0)))
          (Some 1))
       [(100, 2), (101, 1), (102, 1)]
     = Inr (HuffmanNode None (Some (leaf_node 101))
              (Some (inner_node (leaf_node 100) (leaf_node 102))) (Some 1))
   \<and> avg_length
       (Some (HuffmanNode None (Some (leaf_node 100))
                (Some (HuffmanNode None (Some (leaf_node 101)) (Some (leaf_node 102)) (Some 0)))
                (Some 1)))
       [(100, 2), (101, 1), (102, 1)]
     = Inr (3 / 2)
   \<and> avg_length
       (Some (HuffmanNode None (Some (leaf_node 101))
                (Some (inner_node (leaf_node 100) (leaf_node 102))) (Some 1)))
       [(100, 2), (101, 1), (102, 1)]
     = Inr (7 / 4)"
  by code_simp

text \<open>
  C7. The optimizer is claimed to keep the shape of the tree. On the tree of its own
  docstring, \<open>(99 100) (101 (97 98))\<close>, once numbered, the call returns
  \<open>(97 98) (99 100)\<close>: the tree is rebuilt by the postorder strategy, which takes the
  first two records of the list for the root's children, and the leaf at depth 2 and
  one internal node are gone.
\<close>

theorem improve_tree_changes_shape:
  "number_nodes
     (inner_node (inner_node (leaf_node 99) (leaf_node 100))
        (inner_node (leaf_node 101) (inner_node (leaf_node 97) (leaf_node 98))))
   = Inr (HuffmanNode None
            (Some (HuffmanNode None (Some (leaf_node 99)) (Some (leaf_node 100)) (Some 0)))
            (Some (HuffmanNode None (Some (leaf_node 101))
                     (Some (HuffmanNode None (Some (leaf_node 97)) (Some (leaf_node 98)) (Some 1)))
                     (Some 2)))
            (Some 3))
   \<and> improve_tree 1000
       (HuffmanNode None
          (Some (HuffmanNode None (Some (leaf_node 99)) (Some (leaf_node 100)) (Some 0)))
          (Some (HuffmanNode None (Some (leaf_node 101))
                   (Some (HuffmanNode None (Some (leaf_node 97)) (Some (leaf_node 98)) (Some 1)))
                   (Some 2)))
          (Some 3))
       [(97, 26), (98, 23), (99, 20), (100, 16), (101, 15)]
     = Inr (HuffmanNode None
              (Some (inner_node (leaf_node 97) (leaf_node 98)))
              (Some (inner_node (leaf_node 99) (leaf_node 100)))
              (Some 3))"
  by code_simp

subsection \<open>Unpacking\<close>

lemma decode_loop_exhausted:
  "int (length lst + length (emitted codes bits nb)) < sz \<Longrightarrow>
   decode_loop codes bits nb lst sz = lst @ emitted codes bits nb"
  by (induction bits arbitrary: nb lst) (auto split: option.splits)

lemma emitted_values: "set (emitted codes bits nb) \<subseteq> snd ` set codes"
proof (induction bits arbitrary: nb)
  case (Cons b bits)
  show ?case
  proof (cases "map_of codes (nb @ [b])")
    case None
    then show ?thesis using Cons.IH [of "nb @ [b]"] by simp
  next
    case (Some v)
    then have "(nb @ [b], v) \<in> set codes" by (rule map_of_SomeD)
    then have "v \<in> snd ` set codes" by force
    then show ?thesis using Some Cons.IH [of "[]"] by simp
  qed
qed simp

lemma update_values: "snd ` set (AList.update k v al) \<subseteq> insert v (snd ` set al)"
  by (induction al) auto

lemma invert_fold_values:
  "snd ` set (foldl (\<lambda>new_dict (key, value). AList.update value key new_dict) acc d)
   \<subseteq> snd ` set acc \<union> fst ` set d"
proof (induction d arbitrary: acc)
  case (Cons p d)
  obtain k v where p: "p = (k, v)" by (cases p)
  have "snd ` set (AList.update v k acc) \<subseteq> insert k (snd ` set acc)"
    by (rule update_values)
  moreover have "snd ` set (foldl (\<lambda>new_dict (key, value). AList.update value key new_dict)
                     (AList.update v k acc) d)
      \<subseteq> snd ` set (AList.update v k acc) \<union> fst ` set d"
    by (rule Cons.IH)
  ultimately have "snd ` set (foldl (\<lambda>new_dict (key, value). AList.update value key new_dict)
                     (AList.update v k acc) d)
      \<subseteq> snd ` set acc \<union> insert k (fst ` set d)"
    by blast
  then show ?case using p by simp
qed simp

lemma invert_dict_values: "snd ` set (invert_dict d) \<subseteq> fst ` set d"
  using invert_fold_values [of "[]" d] by (simp add: invert_dict_def)

lemma gc_internal_keys:
  "fst ` set (gc_internal t p d) \<subseteq> fst ` set d \<union> set (tree_symbols t)"
proof (induction t arbitrary: p d)
  case (HuffmanNode s l r n)
  define d0 where "d0 = (case s of None \<Rightarrow> d | Some v \<Rightarrow> AList.update v p d)"
  define d1 where "d1 = (case l of None \<Rightarrow> d0 | Some lt \<Rightarrow> gc_internal lt (p @ ''0'') d0)"
  define d2 where "d2 = (case r of None \<Rightarrow> d1 | Some rt \<Rightarrow> gc_internal rt (p @ ''1'') d1)"
  define S where "S = set (tree_symbols (HuffmanNode s l r n))"
  have res: "gc_internal (HuffmanNode s l r n) p d = d2"
    unfolding d2_def d1_def d0_def by (simp add: Let_def)
  have k0: "fst ` set d0 \<subseteq> fst ` set d \<union> S"
  proof (cases s)
    case None
    then show ?thesis by (simp add: d0_def le_supI1)
  next
    case (Some v)
    then have "fst ` set d0 = {v} \<union> fst ` set d" by (simp add: d0_def dom_update)
    moreover have "{v} \<subseteq> S" using Some by (simp add: S_def)
    ultimately show ?thesis
      using subset_chain [of "fst ` set d0" "fst ` set d" "{v}" S "fst ` set d"] by simp
  qed
  have k1: "fst ` set d1 \<subseteq> fst ` set d \<union> S"
  proof (cases l)
    case None
    then show ?thesis using k0 by (simp add: d1_def)
  next
    case (Some lt)
    have e: "d1 = gc_internal lt (p @ ''0'') d0" using Some by (simp add: d1_def)
    have a: "fst ` set d1 \<subseteq> fst ` set d0 \<union> set (tree_symbols lt)"
      unfolding e using HuffmanNode.IH(1) [of lt "p @ ''0''" d0] Some by simp
    have b: "set (tree_symbols lt) \<subseteq> S" using Some by (simp add: S_def le_supI2)
    show ?thesis by (rule subset_chain [OF a b k0])
  qed
  have k2: "fst ` set d2 \<subseteq> fst ` set d \<union> S"
  proof (cases r)
    case None
    then show ?thesis using k1 by (simp add: d2_def)
  next
    case (Some rt)
    have e: "d2 = gc_internal rt (p @ ''1'') d1" using Some by (simp add: d2_def)
    have a: "fst ` set d2 \<subseteq> fst ` set d1 \<union> set (tree_symbols rt)"
      unfolding e using HuffmanNode.IH(2) [of rt "p @ ''1''" d1] Some by simp
    have b: "set (tree_symbols rt) \<subseteq> S" using Some by (simp add: S_def le_supI2)
    show ?thesis by (rule subset_chain [OF a b k1])
  qed
  show ?case using k2 unfolding res S_def .
qed

lemma bytes_Some: "list_all is_byte xs \<Longrightarrow> bytes (map Some xs) = Inr xs"
  by (induction xs) (auto simp: is_byte_def)

text \<open>
  C8. The unpacker is claimed to surface a decode failure when the bits run out before
  \<open>size\<close> symbols are there. It has no failure to surface: after the loop it returns
  what it has. Eight zero bits under the tree \<open>3 2\<close> with \<open>size = 100\<close> return
  eight symbols.
\<close>

theorem generate_uncompressed_returns_partial_output:
  "generate_uncompressed (Some (inner_node (leaf_node 3) (leaf_node 2))) [0] 100
   = Inr [3, 3, 3, 3, 3, 3, 3, 3]"
  by code_simp

text \<open>
  C8, as the code has it: for a tree whose symbols are byte values, when scanning all
  the bits of the payload emits fewer than \<open>size\<close> symbols, the unpacker returns
  normally, and its result is exactly those symbols.
\<close>

theorem generate_uncompressed_partial:
  assumes "list_all is_byte (tree_symbols tree)"
    and "int (length (emitted (invert_dict (get_codes (Some tree)))
                        (concat (map byte_to_bits text)) [])) < size'"
  shows "generate_uncompressed (Some tree) text size'
         = Inr (emitted (invert_dict (get_codes (Some tree))) (concat (map byte_to_bits text)) [])"
proof -
  let ?codes = "invert_dict (get_codes (Some tree))"
  let ?bits = "concat (map byte_to_bits text)"
  have d: "decode_loop ?codes ?bits [] [] size' = emitted ?codes ?bits []"
    using decode_loop_exhausted [of "[]" ?codes ?bits "[]" size'] assms(2) by simp
  have "set (emitted ?codes ?bits []) \<subseteq> snd ` set ?codes" by (rule emitted_values)
  also have "\<dots> \<subseteq> fst ` set (get_codes (Some tree))" by (rule invert_dict_values)
  also have "\<dots> \<subseteq> set (tree_symbols tree)"
    using gc_internal_keys [of tree "[]" "[]"] by (simp add: get_codes_def)
  finally have "list_all is_byte (emitted ?codes ?bits [])"
    using assms(1) by (auto simp: list_all_iff)
  then show ?thesis
    using d by (simp add: generate_uncompressed_def bytes_Some)
qed

theorem generate_uncompressed_partial_witness:
  "list_all is_byte (tree_symbols (inner_node (leaf_node 3) (leaf_node 2)))
   \<and> generate_uncompressed (Some (inner_node (leaf_node 3) (leaf_node 2))) [128] 9
     = Inr [2, 3, 3, 3, 3, 3, 3, 3]"
proof -
  let ?t = "inner_node (leaf_node 3) (leaf_node 2)"
  have h1: "list_all is_byte (tree_symbols ?t)" by code_simp
  have e: "emitted (invert_dict (get_codes (Some ?t))) (concat (map byte_to_bits [128])) []
      = [2, 3, 3, 3, 3, 3, 3, 3]" by code_simp
  have h2: "int (length (emitted (invert_dict (get_codes (Some ?t)))
                        (concat (map byte_to_bits [128])) [])) < 9"
    unfolding e by simp
  have "generate_uncompressed (Some ?t) [128] 9 = Inr [2, 3, 3, 3, 3, 3, 3, 3]"
    using generate_uncompressed_partial [OF h1 h2] by (simp only: e)
  with h1 show ?thesis by (rule conjI)
qed

text \<open>
  C9. The packer is claimed to return the empty byte sequence for the empty symbol
  sequence. It reads \<open>comp_list[-1]\<close> of an empty list instead: IndexError, for every
  code table.
\<close>

theorem generate_compressed_empty_IndexError:
  "generate_compressed [] codes = Inl IndexError"
  by (simp add: generate_compressed_def)

text \<open>
  C10. When the root misses its left or its right child (a bare leaf in particular),
  \<open>number_nodes\<close> returns normally and the tree is what it was: no number is assigned.
\<close>

theorem number_nodes_noop:
  "left tree = None \<or> right tree = None \<Longrightarrow> number_nodes tree = Inr tree"
  by (auto simp: number_nodes_def)

theorem number_nodes_noop_witness:
  "(left (leaf_node 5) = None \<or> right (leaf_node 5) = None)
   \<and> number_nodes (leaf_node 5) = Inr (leaf_node 5)"
proof -
  have h: "left (leaf_node 5) = None \<or> right (leaf_node 5) = None"
    by (simp add: leaf_node_def)
  show ?thesis using h number_nodes_noop [OF h] by simp
qed

end
